theory Spec2Isabelle
  imports Main "HOL-Library.Sublist"
begin

section \<open>JavaScript strings and Node buffers\<close>

text \<open>
  A JavaScript string is a sequence of UTF-16 code units and a Node \<^verbatim>\<open>Buffer\<close> is a
  sequence of bytes. Both are modelled as lists of natural numbers: a code unit is a number
  below \<open>0x10000\<close>, a byte a number below \<open>0x100\<close>. The program never does arithmetic on
  either, so no wrap-around has to be written out. String literals of the source are
  written \<open>js ''...''\<close>.
\<close>

type_synonym jsstring = "nat list"
type_synonym buffer = "nat list"

definition js :: "string \<Rightarrow> jsstring" where
  "js s = map of_char s"

definition is_high_surrogate :: "nat \<Rightarrow> bool" where
  "is_high_surrogate u \<longleftrightarrow> 0xD800 \<le> u \<and> u \<le> 0xDBFF"

definition is_low_surrogate :: "nat \<Rightarrow> bool" where
  "is_low_surrogate u \<longleftrightarrow> 0xDC00 \<le> u \<and> u \<le> 0xDFFF"

definition is_surrogate :: "nat \<Rightarrow> bool" where
  "is_surrogate u \<longleftrightarrow> 0xD800 \<le> u \<and> u \<le> 0xDFFF"

text \<open>
  The code points of a string, as the UTF-8 encoder of \<^verbatim>\<open>Buffer.from(s, 'utf8')\<close> reads
  them: a high surrogate followed by a low surrogate is one supplementary code point, and a
  surrogate that is not part of such a pair is replaced by U+FFFD.
\<close>

fun code_points :: "jsstring \<Rightarrow> nat list" where
  "code_points [] = []"
| "code_points [u] = [if is_surrogate u then 0xFFFD else u]"
| "code_points (u # v # rest) =
     (if is_high_surrogate u \<and> is_low_surrogate v
      then (0x10000 + (u - 0xD800) * 0x400 + (v - 0xDC00)) # code_points rest
      else (if is_surrogate u then 0xFFFD else u) # code_points (v # rest))"

definition utf8_of_code_point :: "nat \<Rightarrow> buffer" where
  "utf8_of_code_point c =
     (if c < 0x80 then [c]
      else if c < 0x800 then [0xC0 + c div 0x40, 0x80 + c mod 0x40]
      else if c < 0x10000 then
        [0xE0 + c div 0x1000, 0x80 + (c div 0x40) mod 0x40, 0x80 + c mod 0x40]
      else
        [0xF0 + c div 0x40000, 0x80 + (c div 0x1000) mod 0x40,
         0x80 + (c div 0x40) mod 0x40, 0x80 + c mod 0x40])"

text \<open>\<^verbatim>\<open>Buffer.from(s, 'utf8')\<close>.\<close>

definition Buffer_from :: "jsstring \<Rightarrow> buffer" where
  "Buffer_from s = concat (map utf8_of_code_point (code_points s))"

text \<open>
  \<^verbatim>\<open>buf.subarray(start)\<close>: a negative start counts from the end, and the start is clamped
  to the length of the buffer.
\<close>

definition subarray :: "buffer \<Rightarrow> int \<Rightarrow> buffer" where
  "subarray buf start =
     (let n = int (length buf);
          s = (if start < 0 then max 0 (n + start) else min start n)
      in drop (nat s) buf)"

definition is_continuation :: "nat \<Rightarrow> bool" where
  "is_continuation b \<longleftrightarrow> 0x80 \<le> b \<and> b \<le> 0xBF"

text \<open>
  The bounds of the second byte of a three-byte and of a four-byte sequence: they exclude
  overlong forms, surrogates and code points above U+10FFFF.
\<close>

definition second_of_three :: "nat \<Rightarrow> nat \<Rightarrow> bool" where
  "second_of_three b0 b1 \<longleftrightarrow>
     (if b0 = 0xE0 then 0xA0 \<le> b1 \<and> b1 \<le> 0xBF
      else if b0 = 0xED then 0x80 \<le> b1 \<and> b1 \<le> 0x9F
      else is_continuation b1)"

definition second_of_four :: "nat \<Rightarrow> nat \<Rightarrow> bool" where
  "second_of_four b0 b1 \<longleftrightarrow>
     (if b0 = 0xF0 then 0x90 \<le> b1 \<and> b1 \<le> 0xBF
      else if b0 = 0xF4 then 0x80 \<le> b1 \<and> b1 \<le> 0x8F
      else is_continuation b1)"

text \<open>
  The UTF-8 decoder behind \<^verbatim>\<open>buf.toString('utf8')\<close>. It never fails: every maximal
  ill-formed run of bytes (a stray continuation byte, an invalid lead byte, a sequence cut
  short) becomes one U+FFFD, and decoding resumes at the byte that did not fit.
\<close>

fun utf8_decode :: "buffer \<Rightarrow> nat list" where
  "utf8_decode [] = []"
| "utf8_decode (b0 # bs) =
     (if b0 < 0x80 then b0 # utf8_decode bs
      else if 0xC2 \<le> b0 \<and> b0 \<le> 0xDF then
        (case bs of
           [] \<Rightarrow> [0xFFFD]
         | b1 # r1 \<Rightarrow>
             if is_continuation b1
             then ((b0 - 0xC0) * 0x40 + (b1 - 0x80)) # utf8_decode r1
             else 0xFFFD # utf8_decode bs)
      else if 0xE0 \<le> b0 \<and> b0 \<le> 0xEF then
        (case bs of
           [] \<Rightarrow> [0xFFFD]
         | b1 # r1 \<Rightarrow>
             if second_of_three b0 b1 then
               (case r1 of
                  [] \<Rightarrow> [0xFFFD]
                | b2 # r2 \<Rightarrow>
                    if is_continuation b2
                    then ((b0 - 0xE0) * 0x1000 + (b1 - 0x80) * 0x40 + (b2 - 0x80))
                           # utf8_decode r2
                    else 0xFFFD # utf8_decode r1)
             else 0xFFFD # utf8_decode bs)
      else if 0xF0 \<le> b0 \<and> b0 \<le> 0xF4 then
        (case bs of
           [] \<Rightarrow> [0xFFFD]
         | b1 # r1 \<Rightarrow>
             if second_of_four b0 b1 then
               (case r1 of
                  [] \<Rightarrow> [0xFFFD]
                | b2 # r2 \<Rightarrow>
                    if is_continuation b2 then
                      (case r2 of
                         [] \<Rightarrow> [0xFFFD]
                       | b3 # r3 \<Rightarrow>
                           if is_continuation b3
                           then ((b0 - 0xF0) * 0x40000 + (b1 - 0x80) * 0x1000
                                   + (b2 - 0x80) * 0x40 + (b3 - 0x80)) # utf8_decode r3
                           else 0xFFFD # utf8_decode r2)
                    else 0xFFFD # utf8_decode r1)
             else 0xFFFD # utf8_decode bs)
      else 0xFFFD # utf8_decode bs)"

definition utf16_of_code_point :: "nat \<Rightarrow> jsstring" where
  "utf16_of_code_point c =
     (if c < 0x10000 then [c]
      else [0xD800 + (c - 0x10000) div 0x400, 0xDC00 + (c - 0x10000) mod 0x400])"

text \<open>\<^verbatim>\<open>buf.toString('utf8')\<close>.\<close>

definition Buffer_toString :: "buffer \<Rightarrow> jsstring" where
  "Buffer_toString buf = concat (map utf16_of_code_point (utf8_decode buf))"

text \<open>\<^verbatim>\<open>Buffer.byteLength\<close> of the UTF-8 encoding of a string.\<close>

definition byteLength :: "jsstring \<Rightarrow> nat" where
  "byteLength s = length (Buffer_from s)"

section \<open>String operations of the runtime\<close>

text \<open>
  White space as \<^verbatim>\<open>String.prototype.trim\<close> and the regular expression class \<^verbatim>\<open>\s\<close>
  understand it: tab, line feed, vertical tab, form feed, carriage return, space,
  no-break space, the other space separators, the line and paragraph separators and the
  byte order mark.
\<close>

definition is_whitespace :: "nat \<Rightarrow> bool" where
  "is_whitespace u \<longleftrightarrow>
     u = 0x09 \<or> u = 0x0A \<or> u = 0x0B \<or> u = 0x0C \<or> u = 0x0D \<or> u = 0x20 \<or> u = 0xA0
     \<or> u = 0x1680 \<or> (0x2000 \<le> u \<and> u \<le> 0x200A) \<or> u = 0x2028 \<or> u = 0x2029
     \<or> u = 0x202F \<or> u = 0x205F \<or> u = 0x3000 \<or> u = 0xFEFF"

definition trim :: "jsstring \<Rightarrow> jsstring" where
  "trim s = rev (dropWhile is_whitespace (rev (dropWhile is_whitespace s)))"

definition startsWith :: "jsstring \<Rightarrow> jsstring \<Rightarrow> bool" where
  "startsWith s p \<longleftrightarrow> take (length p) s = p"

definition endsWith :: "jsstring \<Rightarrow> jsstring \<Rightarrow> bool" where
  "endsWith s p \<longleftrightarrow> length p \<le> length s \<and> drop (length s - length p) s = p"

text \<open>\<^verbatim>\<open>s.slice(start, end)\<close>: negative indices count from the end, both are clamped.\<close>

definition slice :: "'a list \<Rightarrow> int \<Rightarrow> int \<Rightarrow> 'a list" where
  "slice s start end' =
     (let n = int (length s);
          from = (if start < 0 then max (n + start) 0 else min start n);
          to = (if end' < 0 then max (n + end') 0 else min end' n)
      in take (nat (to - from)) (drop (nat from) s))"

text \<open>
  \<^verbatim>\<open>toLowerCase\<close>, on the letters A to Z. The result is only compared with the four ASCII
  extensions below, and no character outside ASCII has a lower case among their letters.
\<close>

definition toLowerCase :: "jsstring \<Rightarrow> jsstring" where
  "toLowerCase s = map (\<lambda>u. if 0x41 \<le> u \<and> u \<le> 0x5A then u + 0x20 else u) s"

text \<open>\<^verbatim>\<open>s.split(d)\<close> for a separator of one code unit.\<close>

fun split :: "nat \<Rightarrow> jsstring \<Rightarrow> jsstring list" where
  "split d [] = [[]]"
| "split d (c # cs) =
     (if c = d then [] # split d cs
      else (case split d cs of [] \<Rightarrow> [[c]] | x # xs \<Rightarrow> (c # x) # xs))"

text \<open>\<^verbatim>\<open>xs.join(sep)\<close>.\<close>

fun join :: "jsstring \<Rightarrow> jsstring list \<Rightarrow> jsstring" where
  "join sep [] = []"
| "join sep [x] = x"
| "join sep (x # y # ys) = x @ sep @ join sep (y # ys)"

text \<open>The digits of a number in a template literal; an exit code is an integer.\<close>

fun digits :: "nat \<Rightarrow> jsstring" where
  "digits n = (if n < 10 then [0x30 + n] else digits (n div 10) @ [0x30 + n mod 10])"

definition number_toString :: "int \<Rightarrow> jsstring" where
  "number_toString i = (if i < 0 then 0x2D # digits (nat (- i)) else digits (nat i))"

section \<open>Errors\<close>

text \<open>
  A JavaScript \<^verbatim>\<open>Error\<close>: its message, and the \<^verbatim>\<open>code\<close> that the runtime sets on the
  errors of a failed spawn (\<^verbatim>\<open>ENOENT\<close>, \<^verbatim>\<open>EINVAL\<close>, ...). \<^verbatim>\<open>new Error(m)\<close> has no code.
\<close>

record js_error =
  message :: jsstring
  code :: "jsstring option"

definition new_Error :: "jsstring \<Rightarrow> js_error" where
  "new_Error m = \<lparr>message = m, code = None\<rparr>"

section \<open>The command resolver\<close>

text \<open>
  What the resolver reads from the host: \<^verbatim>\<open>process.platform\<close>, \<^verbatim>\<open>process.env.PATH\<close>,
  \<^verbatim>\<open>path.delimiter\<close>, \<^verbatim>\<open>path.isAbsolute\<close>, \<^verbatim>\<open>path.join\<close> and \<^verbatim>\<open>fs.existsSync\<close>.
\<close>

record host =
  platform :: jsstring
  env_PATH :: "jsstring option"
  path_delimiter :: nat
  path_isAbsolute :: "jsstring \<Rightarrow> bool"
  path_join :: "jsstring \<Rightarrow> jsstring \<Rightarrow> jsstring"
  fs_existsSync :: "jsstring \<Rightarrow> bool"

record CommandParts =
  executable :: jsstring
  args :: "jsstring list"

definition hasExecutableExtension :: "jsstring \<Rightarrow> bool" where
  "hasExecutableExtension command \<longleftrightarrow>
     list_ex (\<lambda>ext. endsWith (toLowerCase command) ext)
       [js ''.cmd'', js ''.exe'', js ''.bat'', js ''.com'']"

definition commandExists :: "host \<Rightarrow> jsstring \<Rightarrow> bool" where
  "commandExists h candidate \<longleftrightarrow>
     (if path_isAbsolute h candidate then fs_existsSync h candidate
      else
        let pathEntries =
              (case env_PATH h of None \<Rightarrow> [] | Some p \<Rightarrow> split (path_delimiter h) p)
        in list_ex (\<lambda>entry. fs_existsSync h (path_join h entry candidate)) pathEntries)"

text \<open>
  The regular expression \<^verbatim>\<open>/(?:[^\s"']+|"[^"]*"|'[^']*')+/g\<close> of \<^verbatim>\<open>parseCommand\<close>.
  \<open>quoted q s\<close> matches \<^verbatim>\<open>[^q]*q\<close> at the start of \<open>s\<close>, the text after an opening
  quote \<open>q\<close>: the body up to the next \<open>q\<close> and what follows that quote, or nothing when
  the quote is never closed.
\<close>

definition quoted :: "nat \<Rightarrow> jsstring \<Rightarrow> (jsstring \<times> jsstring) option" where
  "quoted q s =
     (case dropWhile (\<lambda>c. c \<noteq> q) s of
        [] \<Rightarrow> None
      | _ # after \<Rightarrow> Some (takeWhile (\<lambda>c. c \<noteq> q) s, after))"

lemma quoted_Some:
  assumes "quoted q s = Some (body, after)"
  shows "s = body @ q # after" and "q \<notin> set body"
proof -
  let ?P = "\<lambda>c. c \<noteq> q"
  from assms obtain x where d: "dropWhile ?P s = x # after" and b: "body = takeWhile ?P s"
    by (auto simp: quoted_def split: list.splits)
  have "\<not> ?P (hd (dropWhile ?P s))"
    by (rule hd_dropWhile) (simp add: d)
  with d have "x = q" by simp
  moreover have "takeWhile ?P s @ dropWhile ?P s = s"
    by (rule takeWhile_dropWhile_id)
  ultimately show "s = body @ q # after"
    using d b by simp
  show "q \<notin> set body"
    unfolding b by (auto dest: set_takeWhileD)
qed

lemma quoted_shorter: "quoted q s = Some (body, after) \<Longrightarrow> length after < length s"
  by (drule quoted_Some(1)) simp

text \<open>
  \<open>match_group s\<close> is the greedy match of the repeated group at the start of \<open>s\<close>: the
  text matched (empty when not even one alternative matches there) and the rest. The three
  alternatives start with different characters, so at most one of them applies at any
  position, and the group stops at white space and at a quote that is never closed.
\<close>

function match_group :: "jsstring \<Rightarrow> jsstring \<times> jsstring" where
  "match_group [] = ([], [])"
| "match_group (c # cs) =
     (if c = 0x22 \<or> c = 0x27 then
        (case quoted c cs of
           None \<Rightarrow> ([], c # cs)
         | Some (body, after) \<Rightarrow>
             (case match_group after of (m, r) \<Rightarrow> (c # body @ c # m, r)))
      else if is_whitespace c then ([], c # cs)
      else (case match_group cs of (m, r) \<Rightarrow> (c # m, r)))"
  by pat_completeness auto
termination
  by (relation "measure length") (auto dest: quoted_shorter)

lemma match_group_split: "match_group s = (m, r) \<Longrightarrow> s = m @ r"
proof (induction s arbitrary: m r rule: match_group.induct)
  case 1
  then show ?case by simp
next
  case (2 c cs)
  show ?case
  proof (cases "c = 0x22 \<or> c = 0x27")
    case True
    show ?thesis
    proof (cases "quoted c cs")
      case None
      with True "2.prems" show ?thesis by auto
    next
      case (Some p)
      obtain body after where p: "p = (body, after)" by (cases p)
      obtain m' r' where mr: "match_group after = (m', r')" by (cases "match_group after")
      from "2.IH"(1) [OF True Some [unfolded p] refl mr] have "after = m' @ r'" .
      moreover from Some p have "cs = body @ c # after"
        by (simp add: quoted_Some(1))
      ultimately show ?thesis
        using True Some p mr "2.prems" by auto
    qed
  next
    case False
    show ?thesis
    proof (cases "is_whitespace c")
      case True
      with False "2.prems" show ?thesis by auto
    next
      case ws: False
      obtain m' r' where mr: "match_group cs = (m', r')" by (cases "match_group cs")
      from "2.IH"(2) [OF False ws mr] have "cs = m' @ r'" .
      with False ws mr "2.prems" show ?thesis by auto
    qed
  qed
qed

text \<open>
  \<^verbatim>\<open>commandLine.match(re)\<close> with the \<^verbatim>\<open>g\<close> flag: all matches from left to right. Where
  the expression does not match, the search moves on by one code unit; after a match it
  goes on behind it. No match at all gives the empty list (\<^verbatim>\<open>null\<close> in the source, which
  the caller treats like an empty array).
\<close>

function match_all :: "jsstring \<Rightarrow> jsstring list" where
  "match_all [] = []"
| "match_all (c # cs) =
     (case match_group (c # cs) of
        (m, r) \<Rightarrow> if m = [] then match_all cs else m # match_all r)"
  by pat_completeness auto
termination
proof (relation "measure length")
  show "wf (measure length)" by simp
next
  fix c :: nat and cs m r :: jsstring
  assume "(m, r) = match_group (c # cs)" and "m = []"
  show "(cs, c # cs) \<in> measure length" by simp
next
  fix c :: nat and cs m r :: jsstring
  assume mr: "(m, r) = match_group (c # cs)" and m: "m \<noteq> []"
  from mr have "match_group (c # cs) = (m, r)" by (simp only:)
  then have "c # cs = m @ r" by (rule match_group_split)
  with m have "length r < length (c # cs)"
    by (metis length_append length_greater_0_conv less_add_same_cancel2)
  then show "(r, c # cs) \<in> measure length" by simp
qed

text \<open>The function mapped over the matches: trim, then take one pair of outer quotes off.\<close>

definition unquote :: "jsstring \<Rightarrow> jsstring" where
  "unquote segment =
     (let trimmed = trim segment
      in if (startsWith trimmed [0x22] \<and> endsWith trimmed [0x22])
            \<or> (startsWith trimmed [0x27] \<and> endsWith trimmed [0x27])
         then slice trimmed 1 (- 1)
         else trimmed)"

text \<open>\<^verbatim>\<open>MeerAiClient.parseCommand\<close>: a thrown error is \<open>Inl\<close>.\<close>

definition parseCommand :: "host \<Rightarrow> jsstring \<Rightarrow> js_error + CommandParts" where
  "parseCommand h commandLine =
     (if commandLine = [] then Inl (new_Error (js ''MeerAI CLI command is empty.''))
      else
        (case map unquote (match_all commandLine) of
           [] \<Rightarrow>
             Inl (new_Error (js ''Unable to parse MeerAI CLI command: \"'' @ commandLine
                              @ js ''\"''))
         | first # rest \<Rightarrow>
             let candidate = first @ js ''.cmd'';
                 executable =
                   (if platform h = js ''win32'' \<and> \<not> hasExecutableExtension first
                       \<and> commandExists h candidate
                    then candidate else first)
             in Inr \<lparr>executable = executable, args = rest\<rparr>))"

section \<open>The bounded stream accumulator\<close>

text \<open>
  \<^verbatim>\<open>MeerAiClient.appendWithLimit\<close>. The limit is a JavaScript number; integers are
  modelled, negative ones included.
\<close>

definition appendWithLimit :: "jsstring \<Rightarrow> jsstring \<Rightarrow> int \<Rightarrow> jsstring" where
  "appendWithLimit current incoming limitBytes =
     (if incoming = [] then current
      else
        let combined = current @ incoming;
            asBuffer = Buffer_from combined
        in if int (length asBuffer) \<le> limitBytes then combined
           else
             let truncated = subarray asBuffer (max 0 (int (length asBuffer) - limitBytes))
             in Buffer_toString truncated)"

section \<open>The error normalizer\<close>

text \<open>\<^verbatim>\<open>MeerAiClient.normalizeError\<close>.\<close>

definition normalizeError ::
  "js_error \<Rightarrow> jsstring \<Rightarrow> jsstring \<Rightarrow> jsstring \<Rightarrow> jsstring list \<Rightarrow> js_error" where
  "normalizeError error exe cwd originalCommand argv =
     (if code error = Some (js ''ENOENT'') then
        new_Error (js ''MeerAI CLI command not found: \"'' @ exe
          @ js ''\". Update the \"meerai.cliCommand\" setting or ensure the MeerAI CLI is installed. (cwd: ''
          @ cwd @ js '')'')
      else if code error = Some (js ''EINVAL'') then
        let renderedArgs = join (js '' '') (map (\<lambda>arg. js ''\"'' @ arg @ js ''\"'') argv)
        in new_Error (js ''MeerAI could not start the CLI (spawn EINVAL). Verify the \"meerai.cliCommand\" setting is correct (currently \"''
             @ originalCommand @ js ''\") and points to an executable. Try running:''
             @ [0x0A, 0x0A] @ exe @ js '' '' @ renderedArgs @ [0x0A, 0x0A]
             @ js ''from a terminal in '' @ cwd @ js ''.'')
      else error)"

section \<open>The process runner\<close>

text \<open>
  The call \<^verbatim>\<open>spawn(executable, spawnArgs, {cwd, env, shell: false})\<close>; of the environment,
  the entries put on top of \<^verbatim>\<open>process.env\<close>.
\<close>

record spawn_call =
  spawn_command :: jsstring
  spawn_args :: "jsstring list"
  spawn_cwd :: jsstring
  spawn_env :: "(jsstring \<times> jsstring) list"
  spawn_shell :: bool

datatype effect = EnsureMeerConfig | Spawn spawn_call

text \<open>What the event handlers of one invocation close over.\<close>

record ask_context =
  ctx_executable :: jsstring
  ctx_spawnArgs :: "jsstring list"
  ctx_workingDirectory :: jsstring
  ctx_commandLine :: jsstring
  ctx_maxBufferBytes :: int
  ctx_onData :: bool

text \<open>
  \<^verbatim>\<open>MeerAiClient.ask\<close> up to the call of \<^verbatim>\<open>spawn\<close>. The arguments are the two settings
  (\<open>cliCommand\<close> and \<open>maxBuffer\<close>, defaults applied), the question, \<^verbatim>\<open>options.cwd\<close>,
  whether \<^verbatim>\<open>options.onData\<close> is given, the result of \<^verbatim>\<open>resolveWorkspaceRoot()\<close>, and the
  error with which \<^verbatim>\<open>ensureMeerConfig()\<close> rejects, if it does. The result lists the
  effects in the order in which they happen, with either the error thrown (\<open>Inl\<close>) or the
  context of the handlers.
\<close>

definition ask_start ::
  "host \<Rightarrow> jsstring \<Rightarrow> int \<Rightarrow> jsstring \<Rightarrow> jsstring option \<Rightarrow> bool \<Rightarrow> jsstring option
     \<Rightarrow> js_error option \<Rightarrow> effect list \<times> (js_error + ask_context)" where
  "ask_start h cliCommand maxBuffer question cwd onData workspaceRoot ensureMeerConfig =
     (let commandLine = trim cliCommand;
          maxBufferKb = maxBuffer;
          maxBufferBytes = max 128 maxBufferKb * 1024
      in case parseCommand h commandLine of
           Inl e \<Rightarrow> ([], Inl e)
         | Inr parts \<Rightarrow>
             let spawnArgs = args parts @ [js ''ask'', question];
                 workingDirectory = (case cwd of Some d \<Rightarrow> Some d | None \<Rightarrow> workspaceRoot)
             in case workingDirectory of
                  None \<Rightarrow> ([], Inl (new_Error (js ''MeerAI requires an open workspace folder.'')))
                | Some wd \<Rightarrow>
                    if wd = []
                    then ([], Inl (new_Error (js ''MeerAI requires an open workspace folder.'')))
                    else
                      (case ensureMeerConfig of
                         Some e \<Rightarrow> ([EnsureMeerConfig], Inl e)
                       | None \<Rightarrow>
                           ([EnsureMeerConfig,
                             Spawn \<lparr>spawn_command = executable parts,
                                    spawn_args = spawnArgs,
                                    spawn_cwd = wd,
                                    spawn_env =
                                      [(js ''NO_COLOR'', js ''1''), (js ''FORCE_COLOR'', js ''0'')],
                                    spawn_shell = False\<rparr>],
                            Inr \<lparr>ctx_executable = executable parts,
                                 ctx_spawnArgs = spawnArgs,
                                 ctx_workingDirectory = wd,
                                 ctx_commandLine = commandLine,
                                 ctx_maxBufferBytes = maxBufferBytes,
                                 ctx_onData = onData\<rparr>)))"

text \<open>
  What happens after the spawn, in the order of the event loop: a chunk on the child's
  stdout or stderr, a cancellation request on the token, the \<^verbatim>\<open>error\<close> event of the
  child and its \<^verbatim>\<open>close\<close> event with the exit code (\<^verbatim>\<open>null\<close> when a signal ended it).
\<close>

datatype event =
    StdoutData jsstring
  | StderrData jsstring
  | CancellationRequested
  | ChildError js_error
  | ChildClose "int option"

text \<open>
  The state of one invocation: the two buffers, the calls made to \<^verbatim>\<open>options.onData\<close>
  and to \<^verbatim>\<open>outputChannel.append\<close>, the flag of \<^verbatim>\<open>options.token\<close> (false when no token
  is given; only a token that is given can ask for cancellation), whether the cancellation
  listener is still registered, \<^verbatim>\<open>child.killed\<close>, and how the promise was settled: \<open>Inr\<close> resolved, \<open>Inl\<close> rejected, \<open>None\<close> pending.
\<close>

record ask_state =
  stdoutBuffer :: jsstring
  stderrBuffer :: jsstring
  onData_calls :: "jsstring list"
  outputChannel :: "jsstring list"
  isCancellationRequested :: bool
  listening :: bool
  killed :: bool
  settled :: "(js_error + jsstring) option"

definition initial_state :: "bool \<Rightarrow> ask_state" where
  "initial_state cancelled =
     \<lparr>stdoutBuffer = [], stderrBuffer = [], onData_calls = [], outputChannel = [],
      isCancellationRequested = cancelled, listening = True, killed = False,
      settled = None\<rparr>"

text \<open>\<^verbatim>\<open>resolve\<close> and \<^verbatim>\<open>reject\<close>: a promise keeps the first result it is given.\<close>

definition settle :: "js_error + jsstring \<Rightarrow> ask_state \<Rightarrow> ask_state" where
  "settle r s = (case settled s of None \<Rightarrow> s\<lparr>settled := Some r\<rparr> | Some _ \<Rightarrow> s)"

definition code_toString :: "int option \<Rightarrow> jsstring" where
  "code_toString exitCode = (case exitCode of None \<Rightarrow> js ''null'' | Some n \<Rightarrow> number_toString n)"

text \<open>The \<^verbatim>\<open>close\<close> handler.\<close>

definition on_close :: "int option \<Rightarrow> ask_state \<Rightarrow> ask_state" where
  "on_close exitCode s =
     (let s' = s\<lparr>listening := False\<rparr>
      in if exitCode = Some 0 then settle (Inr (trim (stdoutBuffer s))) s'
         else if isCancellationRequested s
         then settle (Inl (new_Error (js ''Request cancelled.''))) s'
         else
           let message =
                 (if trim (stderrBuffer s) \<noteq> [] then trim (stderrBuffer s)
                  else js ''MeerAI CLI exited with code '' @ code_toString exitCode @ js ''.'')
           in settle (Inl (new_Error message)) s')"

text \<open>The handlers of the other events, and the dispatch.\<close>

fun handle :: "ask_context \<Rightarrow> event \<Rightarrow> ask_state \<Rightarrow> ask_state" where
  "handle ctx (StdoutData data) s =
     s\<lparr>stdoutBuffer := appendWithLimit (stdoutBuffer s) data (ctx_maxBufferBytes ctx),
       onData_calls := (if ctx_onData ctx then onData_calls s @ [data] else onData_calls s)\<rparr>"
| "handle ctx (StderrData data) s =
     s\<lparr>stderrBuffer := appendWithLimit (stderrBuffer s) data (ctx_maxBufferBytes ctx),
       outputChannel := outputChannel s @ [data]\<rparr>"
| "handle ctx CancellationRequested s =
     (let s' = s\<lparr>isCancellationRequested := True\<rparr>
      in if listening s \<and> \<not> killed s then s'\<lparr>killed := True\<rparr> else s')"
| "handle ctx (ChildError error) s =
     settle (Inl (normalizeError error (ctx_executable ctx) (ctx_workingDirectory ctx)
                    (ctx_commandLine ctx) (ctx_spawnArgs ctx)))
       (s\<lparr>listening := False\<rparr>)"
| "handle ctx (ChildClose exitCode) s = on_close exitCode s"

fun run :: "ask_context \<Rightarrow> event list \<Rightarrow> ask_state \<Rightarrow> ask_state" where
  "run ctx [] s = s"
| "run ctx (e # es) s = run ctx es (handle ctx e s)"

text \<open>Events before the child has ended: data and cancellation requests.\<close>

fun is_stream_event :: "event \<Rightarrow> bool" where
  "is_stream_event (ChildError _) = False"
| "is_stream_event (ChildClose _) = False"
| "is_stream_event _ = True"

fun stdout_chunks :: "event list \<Rightarrow> jsstring list" where
  "stdout_chunks [] = []"
| "stdout_chunks (StdoutData d # es) = d # stdout_chunks es"
| "stdout_chunks (_ # es) = stdout_chunks es"

fun stderr_chunks :: "event list \<Rightarrow> jsstring list" where
  "stderr_chunks [] = []"
| "stderr_chunks (StderrData d # es) = d # stderr_chunks es"
| "stderr_chunks (_ # es) = stderr_chunks es"

text \<open>A buffer after a sequence of bounded appends.\<close>

definition append_all :: "jsstring \<Rightarrow> jsstring list \<Rightarrow> int \<Rightarrow> jsstring" where
  "append_all current chunks limitBytes =
     foldl (\<lambda>buffer chunk. appendWithLimit buffer chunk limitBytes) current chunks"

section \<open>Well-formed text and cuts on code point boundaries\<close>

text \<open>
  A Unicode scalar value: a code point that is not a surrogate. A string is well formed
  when all its code units are below \<open>0x10000\<close> and every surrogate in it is part of a pair,
  a high one followed by a low one. The strings that a stream decoded as UTF-8 delivers
  are of this kind.
\<close>

definition scalar :: "nat \<Rightarrow> bool" where
  "scalar c \<longleftrightarrow> c < 0x110000 \<and> \<not> is_surrogate c"

fun well_formed_string :: "jsstring \<Rightarrow> bool" where
  "well_formed_string [] \<longleftrightarrow> True"
| "well_formed_string [u] \<longleftrightarrow> u < 0x10000 \<and> \<not> is_surrogate u"
| "well_formed_string (u # v # rest) \<longleftrightarrow>
     (if is_high_surrogate u \<and> is_low_surrogate v then well_formed_string rest
      else u < 0x10000 \<and> \<not> is_surrogate u \<and> well_formed_string (v # rest))"

text \<open>
  The bytes that a truncation to \<open>limitBytes\<close> retains of the encoding of \<open>s\<close> do not begin
  inside a code point: the first of them is not a continuation byte. Without truncation
  this is the first byte of the encoding.
\<close>

definition cut_on_boundary :: "jsstring \<Rightarrow> int \<Rightarrow> bool" where
  "cut_on_boundary s limitBytes \<longleftrightarrow>
     (let asBuffer = Buffer_from s
      in case subarray asBuffer (max 0 (int (length asBuffer) - limitBytes)) of
           [] \<Rightarrow> True
         | b # _ \<Rightarrow> \<not> is_continuation b)"

text \<open>The same at every call of a sequence of bounded appends.\<close>

fun cuts_on_boundaries :: "jsstring \<Rightarrow> jsstring list \<Rightarrow> int \<Rightarrow> bool" where
  "cuts_on_boundaries current [] limitBytes \<longleftrightarrow> True"
| "cuts_on_boundaries current (chunk # chunks) limitBytes \<longleftrightarrow>
     cut_on_boundary (current @ chunk) limitBytes
     \<and> cuts_on_boundaries (appendWithLimit current chunk limitBytes) chunks limitBytes"

section \<open>Command lines made of words and quoted segments\<close>

text \<open>
  The command lines that the resolver is meant for: a word without white space and quotes,
  a segment in double quotes without a double quote inside, or a segment in single quotes
  without a single quote inside, followed by further ones, each after a non-empty run of
  white space.
\<close>

datatype segment = Plain jsstring | DoubleQuoted jsstring | SingleQuoted jsstring

text \<open>A segment as it is written in the command line, and the token it stands for.\<close>

fun render :: "segment \<Rightarrow> jsstring" where
  "render (Plain w) = w"
| "render (DoubleQuoted b) = 0x22 # b @ [0x22]"
| "render (SingleQuoted b) = 0x27 # b @ [0x27]"

fun content :: "segment \<Rightarrow> jsstring" where
  "content (Plain w) = w"
| "content (DoubleQuoted b) = b"
| "content (SingleQuoted b) = b"

fun well_formed :: "segment \<Rightarrow> bool" where
  "well_formed (Plain w) \<longleftrightarrow>
     w \<noteq> [] \<and> list_all (\<lambda>c. \<not> is_whitespace c \<and> c \<noteq> 0x22 \<and> c \<noteq> 0x27) w"
| "well_formed (DoubleQuoted b) \<longleftrightarrow> 0x22 \<notin> set b"
| "well_formed (SingleQuoted b) \<longleftrightarrow> 0x27 \<notin> set b"

definition separator :: "jsstring \<Rightarrow> bool" where
  "separator sp \<longleftrightarrow> sp \<noteq> [] \<and> list_all is_whitespace sp"

definition command_line :: "segment \<Rightarrow> (jsstring \<times> segment) list \<Rightarrow> jsstring" where
  "command_line w ws = render w @ concat (map (\<lambda>(sp, v). sp @ render v) ws)"

text \<open>Where the repeated group of the expression ends: at the end of the string or at white space.\<close>

definition stops :: "jsstring \<Rightarrow> bool" where
  "stops rest \<longleftrightarrow> (case rest of [] \<Rightarrow> True | c # _ \<Rightarrow> is_whitespace c)"

definition tail_ok :: "(jsstring \<times> segment) list \<Rightarrow> bool" where
  "tail_ok ws \<longleftrightarrow> list_all (\<lambda>(sp, v). separator sp \<and> well_formed v) ws"

definition example_command :: jsstring where
  "example_command = js ''meer ask \"hello world\" '' @ [0x27] @ js ''x y'' @ [0x27]"

section \<open>Example hosts and an example invocation\<close>

text \<open>
  A POSIX host on which \<^verbatim>\<open>/usr/bin/meer\<close> exists, a Windows host on which \<^verbatim>\<open>meer.cmd\<close>
  is found on the search path, and the context of an invocation with the default settings.
\<close>

definition posix_host :: host where
  "posix_host =
     \<lparr>platform = js ''linux'', env_PATH = Some (js ''/usr/bin:/bin''), path_delimiter = 0x3A,
      path_isAbsolute = (\<lambda>p. startsWith p (js ''/'')),
      path_join = (\<lambda>a b. a @ js ''/'' @ b),
      fs_existsSync = (\<lambda>p. p = js ''/usr/bin/meer'')\<rparr>"

definition windows_host :: host where
  "windows_host =
     \<lparr>platform = js ''win32'', env_PATH = Some (js ''C:'' @ [0x5C] @ js ''npm''),
      path_delimiter = 0x3B,
      path_isAbsolute = (\<lambda>p. startsWith (drop 1 p) [0x3A, 0x5C]),
      path_join = (\<lambda>a b. a @ [0x5C] @ b),
      fs_existsSync = (\<lambda>p. p = js ''C:'' @ [0x5C] @ js ''npm'' @ [0x5C] @ js ''meer.cmd'')\<rparr>"

definition example_context :: ask_context where
  "example_context =
     \<lparr>ctx_executable = js ''meer'', ctx_spawnArgs = [js ''ask'', js ''ping''],
      ctx_workingDirectory = js ''/work'', ctx_commandLine = js ''meer'',
      ctx_maxBufferBytes = 1048576, ctx_onData = True\<rparr>"

text \<open>The definitions that the evaluation of a concrete input unfolds.\<close>

lemmas string_eval = js_def is_whitespace_def trim_def startsWith_def endsWith_def slice_def
  toLowerCase_def Let_def
lemmas utf8_eval = Buffer_from_def Buffer_toString_def utf8_of_code_point_def
  utf16_of_code_point_def is_surrogate_def is_high_surrogate_def is_low_surrogate_def
  is_continuation_def second_of_three_def second_of_four_def subarray_def byteLength_def
  appendWithLimit_def Let_def
lemmas command_eval = quoted_def unquote_def parseCommand_def hasExecutableExtension_def
  commandExists_def new_Error_def

section \<open>Properties of the accumulator\<close>

text \<open>
  Claim C3. When the UTF-8 encoding of \<open>current\<close> followed by \<open>incoming\<close> has at most
  \<open>limitBytes\<close> bytes, the bounded append returns exactly the concatenation of the two;
  and appending the empty string returns \<open>current\<close> unchanged, whatever the limit is.
\<close>

theorem appendWithLimit_under_limit:
  "(int (byteLength (current @ incoming)) \<le> limitBytes
      \<longrightarrow> appendWithLimit current incoming limitBytes = current @ incoming)
   \<and> appendWithLimit current [] limitBytes = current"
  by (simp add: appendWithLimit_def byteLength_def Let_def)

theorem appendWithLimit_under_limit_witness:
  "int (byteLength (js ''ab'' @ js ''cd'')) \<le> 4
   \<and> appendWithLimit (js ''ab'') (js ''cd'') 4 = js ''ab'' @ js ''cd''
   \<and> appendWithLimit (js ''ab'') [] 4 = js ''ab''"
  using appendWithLimit_under_limit [of "js ''ab''" "js ''cd''" 4]
  by (simp add: byteLength_def Buffer_from_def utf8_of_code_point_def js_def is_surrogate_def
      is_high_surrogate_def)

lemma append_all_Nil: "append_all b [] l = b"
  by (simp add: append_all_def)

lemma append_all_Cons:
  "append_all b (c # cs) l = append_all (appendWithLimit b c l) cs l"
  by (simp add: append_all_def)

subsection \<open>Encoding and decoding\<close>

text \<open>The decoder reads back what the encoder writes for a scalar value.\<close>

lemma split3: "(c::nat) div 0x1000 * 0x1000 + (c div 0x40) mod 0x40 * 0x40 + c mod 0x40 = c"
proof -
  have "c div 0x1000 = (c div 0x40) div 0x40"
    by (simp add: div_mult2_eq)
  moreover have "(c div 0x40) div 0x40 * 0x40 + (c div 0x40) mod 0x40 = c div 0x40"
    by (rule div_mult_mod_eq)
  moreover have "c div 0x40 * 0x40 + c mod 0x40 = c"
    by (rule div_mult_mod_eq)
  ultimately show ?thesis
    by linarith
qed

lemma split4:
  "(c::nat) div 0x40000 * 0x40000 + (c div 0x1000) mod 0x40 * 0x1000
     + (c div 0x40) mod 0x40 * 0x40 + c mod 0x40 = c"
proof -
  have "c div 0x40000 = (c div 0x1000) div 0x40"
    by (simp add: div_mult2_eq)
  moreover have "(c div 0x1000) div 0x40 * 0x40 + (c div 0x1000) mod 0x40 = c div 0x1000"
    by (rule div_mult_mod_eq)
  moreover note split3 [of c]
  ultimately show ?thesis
    by linarith
qed

lemma second3_low:
  fixes c :: nat
  assumes "0x800 \<le> c" and "c div 0x1000 = 0"
  shows "0x20 \<le> (c div 0x40) mod 0x40"
  using assms by simp

lemma second3_high:
  fixes c :: nat
  assumes "c < 0xD800" and "c div 0x1000 = 0xD"
  shows "(c div 0x40) mod 0x40 < 0x20"
proof -
  have "c div 0x40 < 0x360"
    using assms(1) by simp
  moreover have "(c div 0x40) div 0x40 = 0xD"
    using assms(2) by (simp add: div_mult2_eq)
  moreover have "(c div 0x40) div 0x40 * 0x40 + (c div 0x40) mod 0x40 = c div 0x40"
    by (rule div_mult_mod_eq)
  ultimately show ?thesis by linarith
qed

lemma second4_low:
  fixes c :: nat
  assumes "0x10000 \<le> c" and "c div 0x40000 = 0"
  shows "0x10 \<le> (c div 0x1000) mod 0x40"
  using assms by simp

lemma second4_high:
  fixes c :: nat
  assumes "c < 0x110000" and "c div 0x40000 = 4"
  shows "(c div 0x1000) mod 0x40 < 0x10"
proof -
  have "c div 0x1000 < 0x110"
    using assms(1) by simp
  moreover have "(c div 0x1000) div 0x40 = 4"
    using assms(2) by (simp add: div_mult2_eq)
  moreover have "(c div 0x1000) div 0x40 * 0x40 + (c div 0x1000) mod 0x40 = c div 0x1000"
    by (rule div_mult_mod_eq)
  ultimately show ?thesis by linarith
qed

lemma decode_one:
  assumes "c < 0x80"
  shows "utf8_decode (utf8_of_code_point c @ rest) = c # utf8_decode rest"
  using assms by (simp add: utf8_of_code_point_def)

lemma decode_two:
  assumes "0x80 \<le> c" and "c < 0x800"
  shows "utf8_decode (utf8_of_code_point c @ rest) = c # utf8_decode rest"
proof -
  let ?b0 = "0xC0 + c div 0x40" and ?b1 = "0x80 + c mod 0x40"
  have enc: "utf8_of_code_point c = [?b0, ?b1]"
    using assms by (simp add: utf8_of_code_point_def)
  have b0: "\<not> ?b0 < 0x80" "0xC2 \<le> ?b0" "?b0 \<le> 0xDF"
    using assms by simp_all
  have b1: "is_continuation ?b1"
    by (simp add: is_continuation_def)
  have v: "(?b0 - 0xC0) * 0x40 + (?b1 - 0x80) = c"
    by simp
  show ?thesis
    unfolding enc using b0 b1 v by (simp del: add_diff_cancel_left')
qed

lemma decode_bytes3:
  assumes "0xE0 \<le> b0" and "b0 \<le> 0xEF" and "second_of_three b0 b1" and "is_continuation b2"
  shows "utf8_decode (b0 # b1 # b2 # rest)
         = ((b0 - 0xE0) * 0x1000 + (b1 - 0x80) * 0x40 + (b2 - 0x80)) # utf8_decode rest"
  using assms by simp

lemma decode_bytes4:
  assumes "0xF0 \<le> b0" and "b0 \<le> 0xF4" and "second_of_four b0 b1" and "is_continuation b2"
    and "is_continuation b3"
  shows "utf8_decode (b0 # b1 # b2 # b3 # rest)
         = ((b0 - 0xF0) * 0x40000 + (b1 - 0x80) * 0x1000 + (b2 - 0x80) * 0x40 + (b3 - 0x80))
           # utf8_decode rest"
  using assms by simp

lemma decode_three:
  assumes "0x800 \<le> c" and "c < 0x10000" and "\<not> is_surrogate c"
  shows "utf8_decode (utf8_of_code_point c @ rest) = c # utf8_decode rest"
proof -
  let ?b0 = "0xE0 + c div 0x1000" and ?b1 = "0x80 + (c div 0x40) mod 0x40"
    and ?b2 = "0x80 + c mod 0x40"
  have enc: "utf8_of_code_point c = [?b0, ?b1, ?b2]"
    using assms by (simp add: utf8_of_code_point_def)
  have b0: "0xE0 \<le> ?b0" "?b0 \<le> 0xEF"
    using assms by simp_all
  have m: "(c div 0x40) mod 0x40 < 0x40"
    by simp
  have b1: "second_of_three ?b0 ?b1"
  proof (cases "c div 0x1000 = 0")
    case True
    with second3_low [OF assms(1) True] m show ?thesis
      by (simp add: second_of_three_def)
  next
    case not_low: False
    show ?thesis
    proof (cases "c div 0x1000 = 0xD")
      case True
      then have "c < 0xE000" by simp
      with assms(3) have "c < 0xD800"
        by (simp add: is_surrogate_def)
      from second3_high [OF this True] not_low True show ?thesis
        by (simp add: second_of_three_def)
    next
      case False
      with not_low m show ?thesis
        by (simp add: second_of_three_def is_continuation_def)
    qed
  qed
  have b2: "is_continuation ?b2"
    by (simp add: is_continuation_def)
  have v: "(?b0 - 0xE0) * 0x1000 + (?b1 - 0x80) * 0x40 + (?b2 - 0x80) = c"
    using split3 [of c] by simp
  show ?thesis
    unfolding enc using decode_bytes3 [OF b0 b1 b2, of rest] v by simp
qed

lemma decode_four:
  assumes "0x10000 \<le> c" and "c < 0x110000"
  shows "utf8_decode (utf8_of_code_point c @ rest) = c # utf8_decode rest"
proof -
  let ?b0 = "0xF0 + c div 0x40000" and ?b1 = "0x80 + (c div 0x1000) mod 0x40"
    and ?b2 = "0x80 + (c div 0x40) mod 0x40" and ?b3 = "0x80 + c mod 0x40"
  have enc: "utf8_of_code_point c = [?b0, ?b1, ?b2, ?b3]"
    using assms by (simp add: utf8_of_code_point_def)
  have b0: "0xF0 \<le> ?b0" "?b0 \<le> 0xF4"
    using assms by simp_all
  have m: "(c div 0x1000) mod 0x40 < 0x40"
    by simp
  have b1: "second_of_four ?b0 ?b1"
  proof (cases "c div 0x40000 = 0")
    case True
    with second4_low [OF assms(1) True] m show ?thesis
      by (simp add: second_of_four_def)
  next
    case not_low: False
    show ?thesis
    proof (cases "c div 0x40000 = 4")
      case True
      from second4_high [OF assms(2) True] not_low True show ?thesis
        by (simp add: second_of_four_def)
    next
      case False
      with not_low m show ?thesis
        by (simp add: second_of_four_def is_continuation_def)
    qed
  qed
  have b2: "is_continuation ?b2" and b3: "is_continuation ?b3"
    by (simp_all add: is_continuation_def)
  have v: "(?b0 - 0xF0) * 0x40000 + (?b1 - 0x80) * 0x1000 + (?b2 - 0x80) * 0x40 + (?b3 - 0x80) = c"
    using split4 [of c] by simp
  show ?thesis
    unfolding enc using decode_bytes4 [OF b0 b1 b2 b3, of rest] v by simp
qed

lemma decode_scalar:
  assumes "scalar c"
  shows "utf8_decode (utf8_of_code_point c @ rest) = c # utf8_decode rest"
proof -
  consider "c < 0x80" | "0x80 \<le> c" "c < 0x800" | "0x800 \<le> c" "c < 0x10000"
    | "0x10000 \<le> c"
    by linarith
  then show ?thesis
  proof cases
    case 1
    then show ?thesis by (rule decode_one)
  next
    case 2
    then show ?thesis by (rule decode_two)
  next
    case 3
    with assms show ?thesis by (simp add: decode_three scalar_def)
  next
    case 4
    with assms show ?thesis by (simp add: decode_four scalar_def)
  qed
qed

lemma decode_encode:
  "list_all scalar cps \<Longrightarrow> utf8_decode (concat (map utf8_of_code_point cps)) = cps"
  by (induction cps) (simp_all add: decode_scalar)

lemma mod_64_le: "(x::nat) mod 0x40 \<le> 0x3F"
proof -
  have "x mod 0x40 < 0x40" by simp
  then show ?thesis by linarith
qed

lemma continuation_tail: "list_all is_continuation (tl (utf8_of_code_point c))"
  by (simp add: utf8_of_code_point_def is_continuation_def mod_64_le)

lemma cut_boundary:
  assumes "case drop k (concat (map utf8_of_code_point cps)) of
             [] \<Rightarrow> True | b # _ \<Rightarrow> \<not> is_continuation b"
  shows "\<exists>j. drop k (concat (map utf8_of_code_point cps))
             = concat (map utf8_of_code_point (drop j cps))"
  using assms
proof (induction cps arbitrary: k)
  case Nil
  then show ?case by simp
next
  case (Cons c cps)
  let ?e = "utf8_of_code_point c" and ?r = "concat (map utf8_of_code_point cps)"
  consider "k = 0" | "length ?e \<le> k" | "0 < k" "k < length ?e"
    by linarith
  then show ?case
  proof cases
    case 1
    then have "drop k (concat (map utf8_of_code_point (c # cps)))
               = concat (map utf8_of_code_point (drop 0 (c # cps)))"
      by simp
    then show ?thesis ..
  next
    case 2
    then have d: "drop k (concat (map utf8_of_code_point (c # cps))) = drop (k - length ?e) ?r"
      by simp
    with Cons.prems have "case drop (k - length ?e) ?r of
             [] \<Rightarrow> True | b # _ \<Rightarrow> \<not> is_continuation b"
      by simp
    from Cons.IH [OF this] obtain j where
      "drop (k - length ?e) ?r = concat (map utf8_of_code_point (drop j cps))" ..
    with d have "drop k (concat (map utf8_of_code_point (c # cps)))
               = concat (map utf8_of_code_point (drop (Suc j) (c # cps)))"
      by simp
    then show ?thesis ..
  next
    case 3
    then obtain b bs where e: "?e = b # bs" and k: "k - 1 < length bs"
      by (cases ?e) auto
    from continuation_tail [of c] e have "list_all is_continuation bs"
      by simp
    with k have "is_continuation (bs ! (k - 1))"
      by (simp add: list_all_length)
    moreover from 3 e k have "drop k (concat (map utf8_of_code_point (c # cps)))
        = bs ! (k - 1) # drop k bs @ ?r"
      by (cases k) (simp_all add: Cons_nth_drop_Suc)
    ultimately show ?thesis
      using Cons.prems by simp
  qed
qed

lemma code_points_bmp:
  "\<not> is_surrogate u \<Longrightarrow> code_points (u # s) = u # code_points s"
  by (cases s) (auto simp: is_surrogate_def is_high_surrogate_def)

lemma well_formed_bmp:
  "u < 0x10000 \<Longrightarrow> \<not> is_surrogate u \<Longrightarrow> well_formed_string (u # s) = well_formed_string s"
  by (cases s) (auto simp: is_surrogate_def is_high_surrogate_def)

lemma well_formed_append:
  "well_formed_string a \<Longrightarrow> well_formed_string b \<Longrightarrow> well_formed_string (a @ b)"
proof (induction a rule: well_formed_string.induct)
  case 1
  then show ?case by simp
next
  case (2 u)
  then show ?case by (simp add: well_formed_bmp)
next
  case (3 u v rest)
  show ?case
  proof (cases "is_high_surrogate u \<and> is_low_surrogate v")
    case True
    with 3 show ?thesis by simp
  next
    case False
    with "3.prems" have u: "u < 0x10000" "\<not> is_surrogate u" and r: "well_formed_string (v # rest)"
      by simp_all
    from "3.IH"(2) [OF False r "3.prems"(2)] have "well_formed_string ((v # rest) @ b)" .
    with u show ?thesis
      by (simp add: well_formed_bmp del: well_formed_string.simps)
  qed
qed

lemma surrogate_pair_value:
  assumes "is_high_surrogate u" and "is_low_surrogate v"
  shows "utf16_of_code_point (0x10000 + (u - 0xD800) * 0x400 + (v - 0xDC00)) = [u, v]"
    and "scalar (0x10000 + (u - 0xD800) * 0x400 + (v - 0xDC00))"
proof -
  let ?h = "u - 0xD800" and ?l = "v - 0xDC00"
  from assms have h: "?h < 0x400" "0xD800 + ?h = u" and l: "?l < 0x400" "0xDC00 + ?l = v"
    by (auto simp: is_high_surrogate_def is_low_surrogate_def)
  have "(?h * 0x400 + ?l) div 0x400 = ?h" "(?h * 0x400 + ?l) mod 0x400 = ?l"
    using l(1) by simp_all
  with h l show "utf16_of_code_point (0x10000 + ?h * 0x400 + ?l) = [u, v]"
    by (simp add: utf16_of_code_point_def)
  from h(1) l(1) show "scalar (0x10000 + ?h * 0x400 + ?l)"
    by (simp add: scalar_def is_surrogate_def)
qed

lemma utf16_code_points:
  "well_formed_string s \<Longrightarrow> concat (map utf16_of_code_point (code_points s)) = s"
proof (induction s rule: well_formed_string.induct)
  case 1
  then show ?case by simp
next
  case (2 u)
  then show ?case by (simp add: utf16_of_code_point_def)
next
  case (3 u v rest)
  show ?case
  proof (cases "is_high_surrogate u \<and> is_low_surrogate v")
    case True
    with 3 show ?thesis by (simp add: surrogate_pair_value)
  next
    case False
    with "3.prems" have u: "u < 0x10000" "\<not> is_surrogate u" and r: "well_formed_string (v # rest)"
      by simp_all
    from "3.IH"(2) [OF False r] u show ?thesis
      by (simp add: code_points_bmp utf16_of_code_point_def del: code_points.simps)
  qed
qed

lemma scalar_code_points: "well_formed_string s \<Longrightarrow> list_all scalar (code_points s)"
proof (induction s rule: well_formed_string.induct)
  case 1
  then show ?case by simp
next
  case (2 u)
  then show ?case by (simp add: scalar_def)
next
  case (3 u v rest)
  show ?case
  proof (cases "is_high_surrogate u \<and> is_low_surrogate v")
    case True
    with 3 show ?thesis by (simp add: surrogate_pair_value)
  next
    case False
    with "3.prems" have u: "u < 0x10000" "\<not> is_surrogate u" and r: "well_formed_string (v # rest)"
      by simp_all
    from "3.IH"(2) [OF False r] u show ?thesis
      by (simp add: code_points_bmp scalar_def del: code_points.simps)
  qed
qed

lemma supplementary_units:
  assumes "0x10000 \<le> c" and "c < 0x110000"
  shows "is_high_surrogate (0xD800 + (c - 0x10000) div 0x400)"
    and "is_low_surrogate (0xDC00 + (c - 0x10000) mod 0x400)"
    and "0x10000 + (0xD800 + (c - 0x10000) div 0x400 - 0xD800) * 0x400
           + (0xDC00 + (c - 0x10000) mod 0x400 - 0xDC00) = c"
proof -
  let ?d = "c - 0x10000"
  from assms have "?d < 0x100000" by simp
  then have "?d div 0x400 < 0x400" by simp
  then show "is_high_surrogate (0xD800 + ?d div 0x400)"
    by (simp add: is_high_surrogate_def)
  have "?d mod 0x400 < 0x400" by simp
  then show "is_low_surrogate (0xDC00 + ?d mod 0x400)"
    by (simp add: is_low_surrogate_def)
  have "?d div 0x400 * 0x400 + ?d mod 0x400 = ?d"
    by (rule div_mult_mod_eq)
  with assms(1) show "0x10000 + (0xD800 + ?d div 0x400 - 0xD800) * 0x400
           + (0xDC00 + ?d mod 0x400 - 0xDC00) = c"
    by simp
qed

lemma code_points_utf16:
  assumes "list_all scalar cps"
  shows "code_points (concat (map utf16_of_code_point cps)) = cps"
    and "well_formed_string (concat (map utf16_of_code_point cps))"
  using assms
proof (induction cps)
  case Nil
  {
    case 1
    show ?case by simp
  next
    case 2
    show ?case by simp
  }
next
  case (Cons c cps)
  {
    case 1
    then have c: "scalar c" and cps: "list_all scalar cps" by simp_all
    show ?case
    proof (cases "c < 0x10000")
      case True
      with c Cons.IH(1) [OF cps] show ?thesis
        by (simp add: utf16_of_code_point_def scalar_def code_points_bmp del: code_points.simps)
    next
      case False
      with c have r: "0x10000 \<le> c" "c < 0x110000" by (simp_all add: scalar_def)
      from False supplementary_units [OF r] Cons.IH(1) [OF cps] show ?thesis
        by (simp add: utf16_of_code_point_def del: add_diff_cancel_left')
    qed
  next
    case 2
    then have c: "scalar c" and cps: "list_all scalar cps" by simp_all
    show ?case
    proof (cases "c < 0x10000")
      case True
      with c Cons.IH(2) [OF cps] show ?thesis
        by (simp add: utf16_of_code_point_def scalar_def well_formed_bmp
            del: well_formed_string.simps)
    next
      case False
      with c have r: "0x10000 \<le> c" "c < 0x110000" by (simp_all add: scalar_def)
      from False supplementary_units(1,2) [OF r] Cons.IH(2) [OF cps] show ?thesis
        by (simp add: utf16_of_code_point_def)
    qed
  }
qed

lemma list_all_drop: "list_all P xs \<Longrightarrow> list_all P (drop j xs)"
  by (auto simp: list_all_iff dest: in_set_dropD)

lemma suffix_concat_drop: "suffix (concat (map f (drop j xs))) (concat (map f xs))"
proof -
  have "concat (map f xs) = concat (map f (take j xs)) @ concat (map f (drop j xs))"
    by (metis append_take_drop_id concat_append map_append)
  then show ?thesis by (simp add: suffix_def)
qed

text \<open>The truncating branch, when the first retained byte starts a code point.\<close>

lemma truncated_on_boundary:
  assumes wf: "well_formed_string s" and pos: "0 < l"
    and over: "l < int (length (Buffer_from s))"
    and cut: "cut_on_boundary s l"
  defines "r \<equiv> Buffer_toString (subarray (Buffer_from s)
                   (max 0 (int (length (Buffer_from s)) - l)))"
  shows "well_formed_string r" and "suffix r s" and "int (byteLength r) = l"
proof -
  let ?cps = "code_points s"
  let ?bytes = "concat (map utf8_of_code_point ?cps)"
  let ?k = "nat (int (length ?bytes) - l)"
  have bytes: "Buffer_from s = ?bytes"
    by (simp add: Buffer_from_def)
  have sub: "subarray ?bytes (max 0 (int (length ?bytes) - l)) = drop ?k ?bytes"
    using pos over unfolding bytes by (simp add: subarray_def Let_def min_def max_def)
  from cut have "case drop ?k ?bytes of [] \<Rightarrow> True | b # _ \<Rightarrow> \<not> is_continuation b"
    unfolding cut_on_boundary_def Let_def bytes sub .
  from cut_boundary [OF this] obtain j where
    j: "drop ?k ?bytes = concat (map utf8_of_code_point (drop j ?cps))" ..
  have sc: "list_all scalar (drop j ?cps)"
    using wf by (simp add: scalar_code_points list_all_drop)
  have r: "r = concat (map utf16_of_code_point (drop j ?cps))"
    unfolding r_def bytes sub j Buffer_toString_def by (simp add: decode_encode [OF sc])
  show "well_formed_string r"
    unfolding r using sc by (rule code_points_utf16(2))
  have "suffix r (concat (map utf16_of_code_point ?cps))"
    unfolding r by (rule suffix_concat_drop)
  then show "suffix r s"
    using wf by (simp add: utf16_code_points)
  have "byteLength r = length (drop ?k ?bytes)"
    unfolding byteLength_def Buffer_from_def r code_points_utf16(1) [OF sc] j ..
  also have "int \<dots> = l"
    using pos over unfolding bytes by simp
  finally show "int (byteLength r) = l" .
qed

lemma appendWithLimit_step:
  assumes "0 < l" and "well_formed_string b" and "well_formed_string c"
    and "cut_on_boundary (b @ c) l"
  shows "well_formed_string (appendWithLimit b c l)"
    and "suffix (appendWithLimit b c l) (b @ c)"
    and "c \<noteq> [] \<or> int (byteLength b) \<le> l \<Longrightarrow> int (byteLength (appendWithLimit b c l)) \<le> l"
proof -
  have wf: "well_formed_string (b @ c)"
    using assms(2,3) by (rule well_formed_append)
  consider "c = []" | "c \<noteq> []" "int (length (Buffer_from (b @ c))) \<le> l"
    | "c \<noteq> []" "l < int (length (Buffer_from (b @ c)))"
    by linarith
  then have "well_formed_string (appendWithLimit b c l)
      \<and> suffix (appendWithLimit b c l) (b @ c)
      \<and> (c \<noteq> [] \<or> int (byteLength b) \<le> l \<longrightarrow> int (byteLength (appendWithLimit b c l)) \<le> l)"
  proof cases
    case 1
    with assms(2) show ?thesis by (simp add: appendWithLimit_def)
  next
    case 2
    with wf show ?thesis by (simp add: appendWithLimit_def byteLength_def Let_def)
  next
    case 3
    from truncated_on_boundary [OF wf assms(1) 3(2) assms(4)] 3 show ?thesis
      by (simp add: appendWithLimit_def Let_def)
  qed
  then show "well_formed_string (appendWithLimit b c l)"
    and "suffix (appendWithLimit b c l) (b @ c)"
    and "c \<noteq> [] \<or> int (byteLength b) \<le> l \<Longrightarrow> int (byteLength (appendWithLimit b c l)) \<le> l"
    by simp_all
qed

lemma append_all_on_boundaries:
  assumes "0 < l" and "well_formed_string b" and "list_all well_formed_string cs"
    and "cuts_on_boundaries b cs l"
  shows "well_formed_string (append_all b cs l)
       \<and> suffix (append_all b cs l) (b @ concat cs)
       \<and> (int (byteLength b) \<le> l \<or> list_ex (\<lambda>c. c \<noteq> []) cs
            \<longrightarrow> int (byteLength (append_all b cs l)) \<le> l)"
  using assms(2-)
proof (induction cs arbitrary: b)
  case Nil
  then show ?case by (simp add: append_all_Nil)
next
  case (Cons c cs)
  let ?b = "appendWithLimit b c l"
  from Cons.prems have c: "well_formed_string c" and cs: "list_all well_formed_string cs"
    and cut: "cut_on_boundary (b @ c) l" and cuts: "cuts_on_boundaries ?b cs l"
    by simp_all
  note step = appendWithLimit_step [OF assms(1) Cons.prems(1) c cut]
  from Cons.IH [OF step(1) cs cuts]
  have wf: "well_formed_string (append_all ?b cs l)"
    and suf: "suffix (append_all ?b cs l) (?b @ concat cs)"
    and len: "int (byteLength ?b) \<le> l \<or> list_ex (\<lambda>c. c \<noteq> []) cs
            \<Longrightarrow> int (byteLength (append_all ?b cs l)) \<le> l"
    by simp_all
  from step(2) obtain p where "b @ c = p @ ?b"
    by (auto simp: suffix_def)
  then have "(b @ c) @ concat cs = p @ (?b @ concat cs)"
    by simp
  then have "suffix (?b @ concat cs) (b @ concat (c # cs))"
    by (simp add: suffix_def del: append_assoc)
  with suf have "suffix (append_all ?b cs l) (b @ concat (c # cs))"
    by (rule suffix_order.trans)
  moreover have "int (byteLength (append_all ?b cs l)) \<le> l"
    if "int (byteLength b) \<le> l \<or> list_ex (\<lambda>c. c \<noteq> []) (c # cs)"
  proof (cases "list_ex (\<lambda>c. c \<noteq> []) cs")
    case True
    then show ?thesis by (simp add: len)
  next
    case False
    with that have "c \<noteq> [] \<or> int (byteLength b) \<le> l" by auto
    then have "int (byteLength ?b) \<le> l" by (rule step(3))
    then show ?thesis by (simp add: len)
  qed
  ultimately show ?case
    using wf by (simp add: append_all_Cons)
qed

subsection \<open>The bound and the suffix\<close>

lemma cuts_on_boundaries_take:
  "cuts_on_boundaries b cs l \<Longrightarrow> cuts_on_boundaries b (take k cs) l"
proof (induction cs arbitrary: b k)
  case Nil
  then show ?case by simp
next
  case (Cons c cs)
  then show ?case by (cases k) simp_all
qed

lemma list_all_take: "list_all P xs \<Longrightarrow> list_all P (take k xs)"
  by (auto simp: list_all_iff dest: in_set_takeD)

text \<open>
  Claim C1, amended. Let the starting buffer and all chunks be well formed, the limit
  positive, and let no truncation of the sequence cut inside a code point. Then after each
  call, the \<open>k\<close>-th say, the buffer is a suffix of the starting buffer followed by the first
  \<open>k\<close> chunks; and its UTF-8 length is at most the limit, provided the starting buffer was
  within the limit or one of these chunks was not empty.
\<close>

theorem append_all_bounded_suffix:
  assumes "0 < limitBytes"
    and "well_formed_string current" and "list_all well_formed_string chunks"
    and "cuts_on_boundaries current chunks limitBytes"
    and "int (byteLength current) \<le> limitBytes
         \<or> list_ex (\<lambda>chunk. chunk \<noteq> []) (take k chunks)"
  shows "int (byteLength (append_all current (take k chunks) limitBytes)) \<le> limitBytes
       \<and> suffix (append_all current (take k chunks) limitBytes)
            (current @ concat (take k chunks))"
proof -
  have "list_all well_formed_string (take k chunks)"
    using assms(3) by (rule list_all_take)
  moreover have "cuts_on_boundaries current (take k chunks) limitBytes"
    using assms(4) by (rule cuts_on_boundaries_take)
  ultimately show ?thesis
    using append_all_on_boundaries [OF assms(1,2), of "take k chunks"] assms(5) by simp
qed

theorem append_all_bounded_suffix_witness:
  "well_formed_string (js ''ab'')
   \<and> list_all well_formed_string [0xE9 # js ''cd'', js ''ef'', js ''gh'']
   \<and> cuts_on_boundaries (js ''ab'') [0xE9 # js ''cd'', js ''ef'', js ''gh''] 4
   \<and> int (byteLength (js ''ab'')) \<le> 4
   \<and> append_all (js ''ab'') (take 2 [0xE9 # js ''cd'', js ''ef'', js ''gh'']) 4 = js ''cdef''
   \<and> int (byteLength
          (append_all (js ''ab'') (take 2 [0xE9 # js ''cd'', js ''ef'', js ''gh'']) 4)) \<le> 4
   \<and> suffix (append_all (js ''ab'') (take 2 [0xE9 # js ''cd'', js ''ef'', js ''gh'']) 4)
        (js ''ab'' @ concat (take 2 [0xE9 # js ''cd'', js ''ef'', js ''gh'']))"
proof -
  have wf: "well_formed_string (js ''ab'')"
    "list_all well_formed_string [0xE9 # js ''cd'', js ''ef'', js ''gh'']"
    by (simp_all add: js_def is_surrogate_def is_high_surrogate_def)
  have first: "appendWithLimit (js ''ab'') (0xE9 # js ''cd'') 4 = 0xE9 # js ''cd''"
    by (simp add: utf8_eval js_def)
  have second: "appendWithLimit (0xE9 # js ''cd'') (js ''ef'') 4 = js ''cdef''"
    by (simp add: utf8_eval js_def)
  have cuts: "cuts_on_boundaries (js ''ab'') [0xE9 # js ''cd'', js ''ef'', js ''gh''] 4"
    unfolding cuts_on_boundaries.simps first second
    by (simp add: cut_on_boundary_def utf8_eval js_def)
  have len: "int (byteLength (js ''ab'')) \<le> 4"
    by (simp add: utf8_eval js_def)
  have two: "take 2 [0xE9 # js ''cd'', js ''ef'', js ''gh''] = [0xE9 # js ''cd'', js ''ef'']"
    by simp
  have val: "append_all (js ''ab'') (take 2 [0xE9 # js ''cd'', js ''ef'', js ''gh'']) 4
             = js ''cdef''"
    unfolding two by (simp add: append_all_def first second)
  from append_all_bounded_suffix [OF _ wf cuts disjI1 [OF len], of 2] wf cuts len val
  show ?thesis by simp
qed

text \<open>
  The claim as the specification states it fails in three ways. A truncation that cuts a
  code point in two leaves continuation bytes at the front; each is decoded to U+FFFD,
  which takes three bytes, so the result is longer than the limit and is not a suffix of
  the text received. An empty chunk returns a buffer that is over the limit as it is. And
  an unpaired surrogate in the retained text comes back as U+FFFD.
\<close>

theorem appendWithLimit_split_counterexample:
  "appendWithLimit [] (0xE9 # js ''abc'') 4 = 0xFFFD # js ''abc''
   \<and> \<not> int (byteLength (appendWithLimit [] (0xE9 # js ''abc'') 4)) \<le> 4
   \<and> \<not> suffix (appendWithLimit [] (0xE9 # js ''abc'') 4) ([] @ 0xE9 # js ''abc'')
   \<and> \<not> int (byteLength (appendWithLimit (js ''abcdef'') [] 4)) \<le> 4
   \<and> \<not> suffix (appendWithLimit [] (js ''ab'' @ [0xD800]) 3) ([] @ js ''ab'' @ [0xD800])"
proof -
  have v: "appendWithLimit [] (0xE9 # js ''abc'') 4 = 0xFFFD # js ''abc''"
    by (simp add: utf8_eval js_def)
  have "byteLength (0xFFFD # js ''abc'') = 6"
    by (simp add: utf8_eval js_def)
  moreover have "\<not> suffix (0xFFFD # js ''abc'') ([] @ 0xE9 # js ''abc'')"
    by (simp add: js_def suffix_Cons)
  moreover have "byteLength (appendWithLimit (js ''abcdef'') [] 4) = 6"
    by (simp add: utf8_eval js_def)
  moreover have "appendWithLimit [] (js ''ab'' @ [0xD800]) 3 = [0xFFFD]"
    by (simp add: utf8_eval js_def)
  moreover have "\<not> suffix [0xFFFD] ([] @ js ''ab'' @ [0xD800])"
    by (simp add: js_def suffix_Cons)
  ultimately show ?thesis
    unfolding v by simp
qed

section \<open>Properties of the process runner\<close>

text \<open>
  The events of a run are handled one after the other. Up to the end of the child only data
  and cancellation requests arrive: they leave the promise pending, feed the two buffers
  through the bounded append and pass every stdout chunk on to \<^verbatim>\<open>onData\<close>.
\<close>

lemma run_append: "run ctx (es @ fs) s = run ctx fs (run ctx es s)"
  by (induction es arbitrary: s) auto

lemma handle_stream_settled:
  "is_stream_event e \<Longrightarrow> settled (handle ctx e s) = settled s"
  by (cases e) (auto simp: Let_def)

lemma run_stream_settled:
  "list_all is_stream_event es \<Longrightarrow> settled (run ctx es s) = settled s"
  by (induction es arbitrary: s) (auto simp: handle_stream_settled)

lemma run_stream_stdout:
  "list_all is_stream_event es \<Longrightarrow>
   stdoutBuffer (run ctx es s) = append_all (stdoutBuffer s) (stdout_chunks es) (ctx_maxBufferBytes ctx)"
proof (induction es arbitrary: s)
  case Nil
  then show ?case by (simp add: append_all_Nil)
next
  case (Cons e es)
  then show ?case
    by (cases e) (auto simp: append_all_Cons Let_def)
qed

lemma run_stream_stderr:
  "list_all is_stream_event es \<Longrightarrow>
   stderrBuffer (run ctx es s) = append_all (stderrBuffer s) (stderr_chunks es) (ctx_maxBufferBytes ctx)"
proof (induction es arbitrary: s)
  case Nil
  then show ?case by (simp add: append_all_Nil)
next
  case (Cons e es)
  then show ?case
    by (cases e) (auto simp: append_all_Cons Let_def)
qed

lemma run_stream_onData:
  "list_all is_stream_event es \<Longrightarrow>
   onData_calls (run ctx es s)
     = onData_calls s @ (if ctx_onData ctx then stdout_chunks es else [])"
proof (induction es arbitrary: s)
  case Nil
  then show ?case by simp
next
  case (Cons e es)
  then show ?case
    by (cases e) (auto simp: Let_def)
qed

lemma run_stream_cancelled:
  "list_all is_stream_event es \<Longrightarrow>
   isCancellationRequested (run ctx es s) \<longleftrightarrow> isCancellationRequested s \<or> CancellationRequested \<in> set es"
proof (induction es arbitrary: s)
  case Nil
  then show ?case by simp
next
  case (Cons e es)
  then show ?case
    by (cases e) (auto simp: Let_def)
qed

lemma on_close_fields:
  "onData_calls (on_close c s) = onData_calls s"
  by (simp add: on_close_def settle_def Let_def split: option.splits)

text \<open>
  Claim C5. When the child exits with code 0, the promise resolves with the accumulated
  stdout buffer (the bounded appends of the stdout chunks, starting from the empty string)
  trimmed of white space at both ends, and \<^verbatim>\<open>onData\<close>, when the caller has given one, has
  been called with exactly the stdout chunks, untrimmed, in the order of their arrival.
\<close>

theorem close_zero:
  assumes "list_all is_stream_event es"
  shows "settled (run ctx (es @ [ChildClose (Some 0)]) (initial_state cancelled))
         = Some (Inr (trim (append_all [] (stdout_chunks es) (ctx_maxBufferBytes ctx))))
       \<and> onData_calls (run ctx (es @ [ChildClose (Some 0)]) (initial_state cancelled))
         = (if ctx_onData ctx then stdout_chunks es else [])"
proof -
  let ?s = "run ctx es (initial_state cancelled)"
  have "settled ?s = None"
    using assms by (simp add: run_stream_settled initial_state_def)
  moreover have "stdoutBuffer ?s = append_all [] (stdout_chunks es) (ctx_maxBufferBytes ctx)"
    using assms by (simp add: run_stream_stdout initial_state_def)
  moreover have "onData_calls ?s = (if ctx_onData ctx then stdout_chunks es else [])"
    using assms by (simp add: run_stream_onData initial_state_def)
  ultimately show ?thesis
    by (simp add: run_append on_close_def settle_def on_close_fields split: option.splits)
qed

theorem close_zero_witness:
  "list_all is_stream_event [StdoutData (js ''pong'' @ [0x0A])]
   \<and> settled (run example_context
         ([StdoutData (js ''pong'' @ [0x0A])] @ [ChildClose (Some 0)]) (initial_state False))
       = Some (Inr (js ''pong''))
   \<and> onData_calls (run example_context
         ([StdoutData (js ''pong'' @ [0x0A])] @ [ChildClose (Some 0)]) (initial_state False))
       = [js ''pong'' @ [0x0A]]"
  using close_zero [of "[StdoutData (js ''pong'' @ [0x0A])]" example_context False]
  by (simp add: append_all_def utf8_eval string_eval example_context_def)

text \<open>
  Claim C9. When the child exits with code 0 the promise resolves with the trimmed stdout
  buffer even though cancellation has been requested on the token before the exit: the
  token's flag is set when the \<^verbatim>\<open>close\<close> handler runs, and the handler does not look at it.
\<close>

theorem close_zero_cancelled:
  assumes "list_all is_stream_event es"
    and "cancelled \<or> CancellationRequested \<in> set es"
  shows "isCancellationRequested (run ctx es (initial_state cancelled))
       \<and> settled (run ctx (es @ [ChildClose (Some 0)]) (initial_state cancelled))
         = Some (Inr (trim (stdoutBuffer (run ctx es (initial_state cancelled)))))"
proof -
  let ?s = "run ctx es (initial_state cancelled)"
  have "settled ?s = None"
    using assms(1) by (simp add: run_stream_settled initial_state_def)
  moreover have "isCancellationRequested ?s"
    using assms by (simp add: run_stream_cancelled initial_state_def)
  ultimately show ?thesis
    by (simp add: run_append on_close_def settle_def)
qed

theorem close_zero_cancelled_witness:
  "list_all is_stream_event [StdoutData (js ''partial ''), CancellationRequested]
   \<and> CancellationRequested \<in> set [StdoutData (js ''partial ''), CancellationRequested]
   \<and> isCancellationRequested
       (run example_context [StdoutData (js ''partial ''), CancellationRequested]
          (initial_state False))
   \<and> settled (run example_context
         ([StdoutData (js ''partial ''), CancellationRequested] @ [ChildClose (Some 0)])
         (initial_state False))
       = Some (Inr (js ''partial''))"
  using close_zero_cancelled [of "[StdoutData (js ''partial ''), CancellationRequested]"
      False example_context]
  by (simp add: utf8_eval string_eval example_context_def initial_state_def)

text \<open>
  Claim C2. When cancellation has been requested on the token (before the invocation or
  during it) and the child then closes with an exit code other than 0, or with none, the
  promise is rejected with the error \<^verbatim>\<open>Request cancelled.\<close>, whatever stderr has produced.
\<close>

theorem close_cancelled:
  assumes "list_all is_stream_event es"
    and "cancelled \<or> CancellationRequested \<in> set es"
    and "exitCode \<noteq> Some 0"
  shows "settled (run ctx (es @ [ChildClose exitCode]) (initial_state cancelled))
         = Some (Inl (new_Error (js ''Request cancelled.'')))"
proof -
  let ?s = "run ctx es (initial_state cancelled)"
  have "settled ?s = None"
    using assms(1) by (simp add: run_stream_settled initial_state_def)
  moreover have "isCancellationRequested ?s"
    using assms(1,2) by (simp add: run_stream_cancelled initial_state_def)
  ultimately show ?thesis
    using assms(3) by (simp add: run_append on_close_def settle_def)
qed

theorem close_cancelled_witness:
  "list_all is_stream_event [StderrData (js ''fatal: killed''), CancellationRequested]
   \<and> CancellationRequested \<in> set [StderrData (js ''fatal: killed''), CancellationRequested]
   \<and> settled (run example_context
         ([StderrData (js ''fatal: killed''), CancellationRequested] @ [ChildClose None])
         (initial_state False))
       = Some (Inl (new_Error (js ''Request cancelled.'')))"
  using close_cancelled [of "[StderrData (js ''fatal: killed''), CancellationRequested]" False
      None example_context]
  by simp

text \<open>
  Claim C4. When the child exits with a code other than 0 and cancellation was never
  requested, the promise is rejected with an error whose message is the trimmed stderr
  buffer if that is not empty, and otherwise \<^verbatim>\<open>MeerAI CLI exited with code N.\<close> with the exit
  code \<open>N\<close> in decimal.
\<close>

theorem close_nonzero:
  assumes "list_all is_stream_event es"
    and "CancellationRequested \<notin> set es"
    and "n \<noteq> 0"
  shows "settled (run ctx (es @ [ChildClose (Some n)]) (initial_state False))
         = Some (Inl (new_Error
             (if trim (append_all [] (stderr_chunks es) (ctx_maxBufferBytes ctx)) \<noteq> []
              then trim (append_all [] (stderr_chunks es) (ctx_maxBufferBytes ctx))
              else js ''MeerAI CLI exited with code '' @ number_toString n @ js ''.'')))"
proof -
  let ?s = "run ctx es (initial_state False)"
  have "settled ?s = None"
    using assms(1) by (simp add: run_stream_settled initial_state_def)
  moreover have "\<not> isCancellationRequested ?s"
    using assms(1,2) by (simp add: run_stream_cancelled initial_state_def)
  moreover have "stderrBuffer ?s = append_all [] (stderr_chunks es) (ctx_maxBufferBytes ctx)"
    using assms(1) by (simp add: run_stream_stderr initial_state_def)
  ultimately show ?thesis
    using assms(3) by (simp add: run_append on_close_def settle_def code_toString_def)
qed

theorem close_nonzero_witness:
  "list_all is_stream_event [StderrData (js ''  no api key'' @ [0x0A])]
   \<and> CancellationRequested \<notin> set [StderrData (js ''  no api key'' @ [0x0A])]
   \<and> settled (run example_context
         ([StderrData (js ''  no api key'' @ [0x0A])] @ [ChildClose (Some 2)])
         (initial_state False))
       = Some (Inl (new_Error (js ''no api key'')))
   \<and> settled (run example_context ([] @ [ChildClose (Some 127)]) (initial_state False))
       = Some (Inl (new_Error (js ''MeerAI CLI exited with code 127.'')))"
  using close_nonzero [of "[StderrData (js ''  no api key'' @ [0x0A])]" 2 example_context]
    close_nonzero [of "[]" 127 example_context]
  by (simp add: append_all_def utf8_eval string_eval number_toString_def example_context_def)

section \<open>Properties of the command resolver\<close>

lemma whitespace_not_quote: "is_whitespace c \<Longrightarrow> c \<noteq> 0x22 \<and> c \<noteq> 0x27"
  by (auto simp: is_whitespace_def)

lemma match_group_stops: "stops rest \<Longrightarrow> match_group rest = ([], rest)"
  by (cases rest) (auto simp: stops_def dest: whitespace_not_quote)

lemma match_group_plain:
  assumes "list_all (\<lambda>c. \<not> is_whitespace c \<and> c \<noteq> 0x22 \<and> c \<noteq> 0x27) w" and "stops rest"
  shows "match_group (w @ rest) = (w, rest)"
  using assms by (induction w) (auto simp: match_group_stops)

lemma quoted_closed: "q \<notin> set b \<Longrightarrow> quoted q (b @ q # rest) = Some (b, rest)"
proof -
  assume "q \<notin> set b"
  then have "dropWhile (\<lambda>c. c \<noteq> q) (b @ q # rest) = q # rest"
    and "takeWhile (\<lambda>c. c \<noteq> q) (b @ q # rest) = b"
    by (auto simp: dropWhile_append3 takeWhile_tail)
  then show ?thesis by (simp add: quoted_def)
qed

lemma match_group_render:
  assumes "well_formed w" and "stops rest"
  shows "match_group (render w @ rest) = (render w, rest)"
proof (cases w)
  case (Plain p)
  with assms show ?thesis by (simp add: match_group_plain)
next
  case (DoubleQuoted b)
  with assms show ?thesis by (simp add: quoted_closed match_group_stops)
next
  case (SingleQuoted b)
  with assms show ?thesis by (simp add: quoted_closed match_group_stops)
qed

lemma render_not_empty: "well_formed w \<Longrightarrow> render w \<noteq> []"
  by (cases w) auto

lemma match_all_step:
  "match_group (c # cs) = (m, r) \<Longrightarrow>
   match_all (c # cs) = (if m = [] then match_all cs else m # match_all r)"
  by (simp only: match_all.simps prod.case)

lemma match_all_render:
  assumes "well_formed w" and "stops rest"
  shows "match_all (render w @ rest) = render w # match_all rest"
proof -
  from assms(1) obtain c cs where r: "render w = c # cs"
    by (cases "render w") (auto dest: render_not_empty)
  have "match_group (c # cs @ rest) = (c # cs, rest)"
    using match_group_render [OF assms] r by simp
  then have "match_all (c # cs @ rest) = (c # cs) # match_all rest"
    by (simp add: match_all_step del: match_all.simps match_group.simps)
  with r show ?thesis by simp
qed

lemma match_all_whitespace:
  "list_all is_whitespace sp \<Longrightarrow> match_all (sp @ s) = match_all s"
proof (induction sp)
  case Nil
  then show ?case by simp
next
  case (Cons c sp)
  then have "stops (c # sp @ s)"
    by (simp add: stops_def)
  then have "match_group (c # sp @ s) = ([], c # sp @ s)"
    by (rule match_group_stops)
  then have "match_all (c # sp @ s) = match_all (sp @ s)"
    by (simp add: match_all_step del: match_all.simps match_group.simps)
  with Cons show ?case by simp
qed

lemma stops_tail:
  "tail_ok ws \<Longrightarrow> stops (concat (map (\<lambda>(sp, v). sp @ render v) ws))"
proof (cases ws)
  case Nil
  then show ?thesis by (simp add: stops_def)
next
  case (Cons p ps)
  assume "tail_ok ws"
  with Cons obtain sp v where "p = (sp, v)" and "separator sp" by (cases p) (auto simp: tail_ok_def)
  with Cons show ?thesis
    by (cases sp) (auto simp: stops_def separator_def)
qed

lemma match_all_tail:
  "tail_ok ws \<Longrightarrow>
   match_all (concat (map (\<lambda>(sp, v). sp @ render v) ws)) = map (render \<circ> snd) ws"
proof (induction ws)
  case Nil
  then show ?case by simp
next
  case (Cons p ps)
  obtain sp v where p: "p = (sp, v)" by (cases p)
  from Cons.prems p have sp: "separator sp" and v: "well_formed v" and ps: "tail_ok ps"
    by (simp_all add: tail_ok_def)
  let ?rest = "concat (map (\<lambda>(sp, v). sp @ render v) ps)"
  have "match_all (sp @ render v @ ?rest) = match_all (render v @ ?rest)"
    using sp by (simp add: match_all_whitespace separator_def)
  also have "\<dots> = render v # match_all ?rest"
    using v ps by (simp add: match_all_render stops_tail)
  also have "match_all ?rest = map (render \<circ> snd) ps"
    using ps by (rule Cons.IH)
  finally show ?case using p by simp
qed

lemma match_all_command_line:
  assumes "well_formed w" and "tail_ok ws"
  shows "match_all (command_line w ws) = render w # map (render \<circ> snd) ws"
  using assms by (simp add: command_line_def match_all_render stops_tail match_all_tail)

lemma trim_id:
  assumes "s \<noteq> []" and "\<not> is_whitespace (hd s)" and "\<not> is_whitespace (last s)"
  shows "trim s = s"
proof -
  from assms have "dropWhile is_whitespace s = s"
    by (cases s) auto
  moreover from assms have "dropWhile is_whitespace (rev s) = rev s"
    by (cases "rev s") (auto simp: hd_rev)
  ultimately show ?thesis by (simp add: trim_def)
qed

lemma unquote_render: "well_formed w \<Longrightarrow> unquote (render w) = content w"
proof (cases w)
  case (Plain p)
  assume "well_formed w"
  with Plain have ne: "p \<noteq> []" and all: "list_all (\<lambda>c. \<not> is_whitespace c \<and> c \<noteq> 0x22 \<and> c \<noteq> 0x27) p"
    by simp_all
  from ne all have "hd p \<in> set p" "last p \<in> set p" by simp_all
  with all have h: "\<not> is_whitespace (hd p)" "\<not> is_whitespace (last p)" "hd p \<noteq> 0x22" "hd p \<noteq> 0x27"
    by (auto simp: list_all_iff)
  with ne have "trim p = p" by (simp add: trim_id)
  moreover from ne h have "\<not> startsWith p [0x22]" "\<not> startsWith p [0x27]"
    by (cases p; simp add: startsWith_def)+
  ultimately show ?thesis using Plain by (simp add: unquote_def)
next
  case (DoubleQuoted b)
  have "trim (0x22 # b @ [0x22]) = 0x22 # b @ [0x22]"
    by (rule trim_id) (simp_all add: is_whitespace_def)
  then show ?thesis using DoubleQuoted
    by (simp add: unquote_def startsWith_def endsWith_def slice_def)
next
  case (SingleQuoted b)
  have "trim (0x27 # b @ [0x27]) = 0x27 # b @ [0x27]"
    by (rule trim_id) (simp_all add: is_whitespace_def)
  then show ?thesis using SingleQuoted
    by (simp add: unquote_def startsWith_def endsWith_def slice_def)
qed

lemma command_line_not_empty: "well_formed w \<Longrightarrow> command_line w ws \<noteq> []"
  by (simp add: command_line_def render_not_empty)

text \<open>
  Claim C6, amended. On a command line of words and quoted segments separated by white space,
  the resolver returns one token for each of them: the word itself, or the text between the
  quotes. The first token is the executable and the others are the arguments, in order;
  only on \<^verbatim>\<open>win32\<close>, when the first token has no executable extension and the command with
  \<^verbatim>\<open>.cmd\<close> appended exists, the executable is that command instead. For
  \<^verbatim>\<open>meer ask "hello world" 'x y'\<close> the arguments are \<^verbatim>\<open>ask\<close>, \<^verbatim>\<open>hello world\<close> and \<^verbatim>\<open>x y\<close>,
  and the executable is \<^verbatim>\<open>meer\<close>, or \<^verbatim>\<open>meer.cmd\<close> in the case just described.
\<close>

theorem parseCommand_tokens:
  assumes "well_formed w" and "tail_ok ws"
  shows "parseCommand h (command_line w ws)
         = Inr \<lparr>executable =
                  (if platform h = js ''win32'' \<and> \<not> hasExecutableExtension (content w)
                      \<and> commandExists h (content w @ js ''.cmd'')
                   then content w @ js ''.cmd'' else content w),
                args = map (content \<circ> snd) ws\<rparr>"
proof -
  have "map unquote (match_all (command_line w ws))
        = unquote (render w) # map (unquote \<circ> render \<circ> snd) ws"
    using assms by (simp add: match_all_command_line)
  also have "unquote (render w) = content w"
    using assms(1) by (rule unquote_render)
  also have "map (unquote \<circ> render \<circ> snd) ws = map (content \<circ> snd) ws"
    using assms(2) by (auto simp: tail_ok_def list_all_iff unquote_render)
  finally show ?thesis
    using command_line_not_empty [OF assms(1), of ws]
    by (simp add: parseCommand_def Let_def)
qed

theorem parseCommand_tokens_witness:
  "well_formed (Plain (js ''meer''))
   \<and> tail_ok [(js '' '', Plain (js ''ask'')), (js '' '', DoubleQuoted (js ''hello world'')),
              (js '' '', SingleQuoted (js ''x y''))]
   \<and> command_line (Plain (js ''meer''))
        [(js '' '', Plain (js ''ask'')), (js '' '', DoubleQuoted (js ''hello world'')),
         (js '' '', SingleQuoted (js ''x y''))] = example_command
   \<and> parseCommand posix_host example_command
       = Inr \<lparr>executable = js ''meer'', args = [js ''ask'', js ''hello world'', js ''x y'']\<rparr>"
proof -
  let ?ws = "[(js '' '', Plain (js ''ask'')), (js '' '', DoubleQuoted (js ''hello world'')),
              (js '' '', SingleQuoted (js ''x y''))]"
  have w: "well_formed (Plain (js ''meer''))"
    by (simp add: js_def is_whitespace_def)
  have ws: "tail_ok ?ws"
    by (simp add: tail_ok_def separator_def js_def is_whitespace_def)
  have line: "command_line (Plain (js ''meer'')) ?ws = example_command"
    by (simp add: command_line_def example_command_def js_def)
  have "platform posix_host \<noteq> js ''win32''"
    by (simp add: posix_host_def js_def)
  with parseCommand_tokens [OF w ws, of posix_host] w ws line show ?thesis
    by simp
qed

text \<open>
  On the Windows host, where \<^verbatim>\<open>meer.cmd\<close> is found on the search path, the executable for
  the same command line is \<^verbatim>\<open>meer.cmd\<close>, not \<^verbatim>\<open>meer\<close>.
\<close>

theorem parseCommand_windows_counterexample:
  "parseCommand windows_host example_command
     = Inr \<lparr>executable = js ''meer.cmd'', args = [js ''ask'', js ''hello world'', js ''x y'']\<rparr>
   \<and> parseCommand windows_host example_command
     \<noteq> Inr \<lparr>executable = js ''meer'', args = [js ''ask'', js ''hello world'', js ''x y'']\<rparr>"
  by (simp add: example_command_def string_eval command_eval windows_host_def)

section \<open>Properties of the start of an invocation\<close>

text \<open>
  Claim C7. When the configured command is empty (after the trimming that \<^verbatim>\<open>ask\<close> does),
  the invocation fails with the error \<^verbatim>\<open>MeerAI CLI command is empty.\<close>; when it is not
  empty but the regular expression finds no token in it, the invocation fails with an
  error that quotes the command string. In both cases no effect has happened: no child
  process has been spawned.
\<close>

theorem command_rejected_before_spawn:
  "(trim cliCommand = [] \<longrightarrow>
      ask_start h cliCommand maxBuffer question cwd onData workspaceRoot ensureMeerConfig
        = ([], Inl (new_Error (js ''MeerAI CLI command is empty.''))))
   \<and> (trim cliCommand \<noteq> [] \<and> match_all (trim cliCommand) = [] \<longrightarrow>
      ask_start h cliCommand maxBuffer question cwd onData workspaceRoot ensureMeerConfig
        = ([], Inl (new_Error (js ''Unable to parse MeerAI CLI command: \"'' @ trim cliCommand
                                @ js ''\"''))))"
  by (simp add: ask_start_def parseCommand_def Let_def)

theorem command_rejected_before_spawn_witness:
  "trim [] = []
   \<and> ask_start posix_host [] 1024 (js ''ping'') (Some (js ''/work'')) True None None
       = ([], Inl (new_Error (js ''MeerAI CLI command is empty.'')))
   \<and> trim (js '' \"'') \<noteq> []
   \<and> match_all (trim (js '' \"'')) = []
   \<and> ask_start posix_host (js '' \"'') 1024 (js ''ping'') (Some (js ''/work'')) True None None
       = ([], Inl (new_Error (js ''Unable to parse MeerAI CLI command: \"\"\"'')))"
  using command_rejected_before_spawn [of "[]" posix_host 1024 "js ''ping''" "Some (js ''/work'')"
      True None None]
    command_rejected_before_spawn [of "js '' \"''" posix_host 1024 "js ''ping''"
      "Some (js ''/work'')" True None None]
  by (simp add: string_eval command_eval)

lemma parseCommand_args:
  "parseCommand h commandLine = Inr parts \<Longrightarrow>
   args parts = tl (map unquote (match_all commandLine))"
  by (auto simp: parseCommand_def Let_def split: if_splits list.splits)

text \<open>
  Claim C10. Whenever an invocation spawns a child, the argument vector of the spawn is the
  tokens of the configured command after the first one, then the literal \<^verbatim>\<open>ask\<close>, then the
  question as one element, unchanged; and the spawn does not go through a shell.
\<close>

theorem spawn_arguments:
  assumes "Spawn call \<in> set (fst (ask_start h cliCommand maxBuffer question cwd onData
             workspaceRoot ensureMeerConfig))"
  shows "spawn_args call
           = tl (map unquote (match_all (trim cliCommand))) @ [js ''ask'', question]
         \<and> \<not> spawn_shell call"
proof -
  from assms obtain parts where p: "parseCommand h (trim cliCommand) = Inr parts"
    and "spawn_args call = args parts @ [js ''ask'', question]" and "\<not> spawn_shell call"
    by (auto simp: ask_start_def Let_def split: sum.splits option.splits if_splits)
  with parseCommand_args [OF p] show ?thesis by simp
qed

theorem spawn_arguments_witness:
  "Spawn \<lparr>spawn_command = js ''node'',
          spawn_args = [js ''/opt/my cli/meer.js'', js ''--plain'', js ''ask'',
                        js ''why; rm -rf \"$HOME\"''],
          spawn_cwd = js ''/work'',
          spawn_env = [(js ''NO_COLOR'', js ''1''), (js ''FORCE_COLOR'', js ''0'')],
          spawn_shell = False\<rparr>
     \<in> set (fst (ask_start posix_host (js ''node \"/opt/my cli/meer.js\" --plain'') 1024
                   (js ''why; rm -rf \"$HOME\"'') (Some (js ''/work'')) True None None))
   \<and> tl (map unquote (match_all (trim (js ''node \"/opt/my cli/meer.js\" --plain''))))
         @ [js ''ask'', js ''why; rm -rf \"$HOME\"'']
       = [js ''/opt/my cli/meer.js'', js ''--plain'', js ''ask'', js ''why; rm -rf \"$HOME\"'']"
proof -
  let ?call = "\<lparr>spawn_command = js ''node'',
          spawn_args = [js ''/opt/my cli/meer.js'', js ''--plain'', js ''ask'',
                        js ''why; rm -rf \"$HOME\"''],
          spawn_cwd = js ''/work'',
          spawn_env = [(js ''NO_COLOR'', js ''1''), (js ''FORCE_COLOR'', js ''0'')],
          spawn_shell = False\<rparr>"
  have spawned: "Spawn ?call
     \<in> set (fst (ask_start posix_host (js ''node \"/opt/my cli/meer.js\" --plain'') 1024
                   (js ''why; rm -rf \"$HOME\"'') (Some (js ''/work'')) True None None))"
    by (simp add: ask_start_def string_eval command_eval posix_host_def)
  from spawn_arguments [OF spawned] spawned show ?thesis
    by simp
qed

section \<open>Properties of the error normalizer\<close>

lemma sublist_mid: "sublist xs (ps @ xs @ ss)"
  by (auto simp: sublist_def)

lemma normalizeError_ENOENT:
  assumes "code error = Some (js ''ENOENT'')"
  shows "message (normalizeError error exe cwd originalCommand argv)
           = js ''MeerAI CLI command not found: \"'' @ exe
             @ js ''\". Update the \"meerai.cliCommand\" setting or ensure the MeerAI CLI is installed. (cwd: ''
             @ cwd @ js '')''"
  using assms by (simp add: normalizeError_def new_Error_def)

text \<open>
  Claim C8. For a spawn failure with the code \<^verbatim>\<open>ENOENT\<close>, the message of the normalized
  error contains the executable as it was given to the spawn, the name of the setting
  \<^verbatim>\<open>meerai.cliCommand\<close> and the working directory. An error whose code is neither
  \<^verbatim>\<open>ENOENT\<close> nor \<^verbatim>\<open>EINVAL\<close> is returned as it is.
\<close>

theorem normalizeError_cases:
  "(code error = Some (js ''ENOENT'') \<longrightarrow>
      sublist exe (message (normalizeError error exe cwd originalCommand argv))
      \<and> sublist (js ''meerai.cliCommand'')
            (message (normalizeError error exe cwd originalCommand argv))
      \<and> sublist cwd (message (normalizeError error exe cwd originalCommand argv)))
   \<and> (code error \<noteq> Some (js ''ENOENT'') \<and> code error \<noteq> Some (js ''EINVAL'') \<longrightarrow>
      normalizeError error exe cwd originalCommand argv = error)"
proof (intro conjI impI)
  assume enoent: "code error = Some (js ''ENOENT'')"
  let ?a = "js ''MeerAI CLI command not found: \"''"
  let ?b = "js ''\". Update the \"meerai.cliCommand\" setting or ensure the MeerAI CLI is installed. (cwd: ''"
  let ?c = "js '')''"
  let ?m = "message (normalizeError error exe cwd originalCommand argv)"
  have m: "?m = ?a @ exe @ ?b @ cwd @ ?c"
    using enoent by (rule normalizeError_ENOENT)
  show "sublist exe ?m"
    unfolding m by (rule sublist_mid)
  have "?m = (?a @ exe @ ?b) @ cwd @ ?c"
    unfolding m by simp
  then show "sublist cwd ?m"
    by (simp only: sublist_mid)
  have "?b = js ''\". Update the \"'' @ js ''meerai.cliCommand''
      @ js ''\" setting or ensure the MeerAI CLI is installed. (cwd: ''"
    by (simp add: js_def)
  then have "?m = (?a @ exe @ js ''\". Update the \"'') @ js ''meerai.cliCommand''
      @ (js ''\" setting or ensure the MeerAI CLI is installed. (cwd: '' @ cwd @ ?c)"
    unfolding m by simp
  then show "sublist (js ''meerai.cliCommand'') ?m"
    by (simp only: sublist_mid)
next
  assume "code error \<noteq> Some (js ''ENOENT'') \<and> code error \<noteq> Some (js ''EINVAL'')"
  then show "normalizeError error exe cwd originalCommand argv = error"
    by (simp add: normalizeError_def)
qed

theorem normalizeError_cases_witness:
  "code \<lparr>message = js ''spawn definitely-not-a-real-binary ENOENT'', code = Some (js ''ENOENT'')\<rparr>
     = Some (js ''ENOENT'')
   \<and> sublist (js ''definitely-not-a-real-binary'')
        (message (normalizeError
           \<lparr>message = js ''spawn definitely-not-a-real-binary ENOENT'', code = Some (js ''ENOENT'')\<rparr>
           (js ''definitely-not-a-real-binary'') (js ''/work'')
           (js ''definitely-not-a-real-binary'') [js ''ask'', js ''ping'']))
   \<and> sublist (js ''meerai.cliCommand'')
        (message (normalizeError
           \<lparr>message = js ''spawn definitely-not-a-real-binary ENOENT'', code = Some (js ''ENOENT'')\<rparr>
           (js ''definitely-not-a-real-binary'') (js ''/work'')
           (js ''definitely-not-a-real-binary'') [js ''ask'', js ''ping'']))
   \<and> sublist (js ''/work'')
        (message (normalizeError
           \<lparr>message = js ''spawn definitely-not-a-real-binary ENOENT'', code = Some (js ''ENOENT'')\<rparr>
           (js ''definitely-not-a-real-binary'') (js ''/work'')
           (js ''definitely-not-a-real-binary'') [js ''ask'', js ''ping'']))
   \<and> normalizeError \<lparr>message = js ''spawn meer EACCES'', code = Some (js ''EACCES'')\<rparr>
         (js ''meer'') (js ''/work'') (js ''meer'') [js ''ask'', js ''ping'']
       = \<lparr>message = js ''spawn meer EACCES'', code = Some (js ''EACCES'')\<rparr>"
proof -
  have ne: "js ''EACCES'' \<noteq> js ''ENOENT''" "js ''EACCES'' \<noteq> js ''EINVAL''"
    by (simp_all add: js_def)
  show ?thesis
    using normalizeError_cases [of
        "\<lparr>message = js ''spawn definitely-not-a-real-binary ENOENT'', code = Some (js ''ENOENT'')\<rparr>"
        "js ''definitely-not-a-real-binary''" "js ''/work''" "js ''definitely-not-a-real-binary''"
        "[js ''ask'', js ''ping'']"]
      normalizeError_cases [of
        "\<lparr>message = js ''spawn meer EACCES'', code = Some (js ''EACCES'')\<rparr>"
        "js ''meer''" "js ''/work''" "js ''meer''" "[js ''ask'', js ''ping'']"]
      ne
    by simp
qed

end
